theory Spec2Isabelle
  imports Main "HOL-Library.Word" "HOL-Library.AList"
begin

section \<open>Bytes, strings and errors\<close>

text \<open>
  The server (\<^verbatim>\<open>server.js\<close>) keeps, for every terminal session, a ring buffer of the
  bytes its process has printed. A Node \<^verbatim>\<open>Buffer\<close> is a list of bytes; a JavaScript
  string is a list of UTF-16 code units. Session names and ids are plain ASCII and are
  written as \<open>string\<close>. JavaScript numbers are modelled as \<open>int\<close>: every number
  the ring buffer computes is an integer far below \<open>2^53\<close>.
\<close>

type_synonym byte = "8 word"
type_synonym js_string = "16 word list"

datatype js_error = ERR_OUT_OF_RANGE | ERR_SPAWN | ERR_PTY

text \<open>
  What \<^verbatim>\<open>append\<close> is handed: a \<^verbatim>\<open>Buffer\<close>, or any other value, which is
  represented by its image under \<^verbatim>\<open>String(...)\<close>.
\<close>

datatype input = IsBuffer "byte list" | NotBuffer js_string

subsection \<open>The operations of Node's Buffer that the ring buffer calls\<close>

text \<open>
  \<^verbatim>\<open>source.copy(target, targetStart, sourceStart, sourceEnd)\<close>: a negative index, or a
  \<^verbatim>\<open>sourceStart\<close> beyond the source, raises; a range that does not fit the target is cut
  to what fits. The function returns the target after the call.
\<close>

definition buf_copy :: "byte list \<Rightarrow> byte list \<Rightarrow> int \<Rightarrow> int \<Rightarrow> int \<Rightarrow> js_error + byte list" where
  "buf_copy source target targetStart sourceStart sourceEnd =
     (if targetStart < 0 then Inl ERR_OUT_OF_RANGE
      else if sourceStart < 0 \<or> int (length source) < sourceStart then Inl ERR_OUT_OF_RANGE
      else if sourceEnd < 0 then Inl ERR_OUT_OF_RANGE
      else if int (length target) \<le> targetStart \<or> sourceEnd \<le> sourceStart then Inr target
      else
        let sourceEnd' =
              (if int (length target) - targetStart < sourceEnd - sourceStart
               then sourceStart + int (length target) - targetStart else sourceEnd);
            nb = min (sourceEnd' - sourceStart) (int (length source) - sourceStart)
        in if nb \<le> 0 then Inr target
           else Inr (take (nat targetStart) target
                     @ take (nat nb) (drop (nat sourceStart) source)
                     @ drop (nat targetStart + nat nb) target))"

text \<open>\<^verbatim>\<open>buf.slice(start, end)\<close>: a negative index counts from the end, and both are clamped.\<close>

definition clamp_index :: "int \<Rightarrow> nat \<Rightarrow> nat" where
  "clamp_index i n = (if i < 0 then nat (max 0 (int n + i)) else min (nat i) n)"

definition buf_slice :: "byte list \<Rightarrow> int \<Rightarrow> int \<Rightarrow> byte list" where
  "buf_slice b s e =
     (let s' = clamp_index s (length b); e' = clamp_index e (length b)
      in take (e' - s') (drop s' b))"

text \<open>
  The remainder operator \<^verbatim>\<open>%\<close> takes the sign of the dividend. (A zero divisor gives
  \<^verbatim>\<open>NaN\<close> in JavaScript; \<^verbatim>\<open>append\<close> divides by \<^verbatim>\<open>limit\<close> only after
  \<^verbatim>\<open>b.length < limit\<close>, so the divisor is positive wherever it is evaluated.)
\<close>

definition js_rem :: "int \<Rightarrow> int \<Rightarrow> int" where
  "js_rem a b = sgn a * (\<bar>a\<bar> mod \<bar>b\<bar>)"

section \<open>RingBuffer\<close>

record RingBuffer =
  buf :: "byte list"
  limit :: int
  start :: int
  len :: int

text \<open>
  The constructor. \<^verbatim>\<open>Buffer.allocUnsafe\<close> returns memory that is not cleared: its
  content is the parameter \<open>junk\<close>. A negative size raises.
\<close>

definition RingBuffer_new :: "(nat \<Rightarrow> byte) \<Rightarrow> int \<Rightarrow> js_error + RingBuffer" where
  "RingBuffer_new junk limitBytes =
     (if limitBytes < 0 then Inl ERR_OUT_OF_RANGE
      else Inr \<lparr>buf = map junk [0..<nat limitBytes], limit = limitBytes, start = 0, len = 0\<rparr>)"

text \<open>
  \<^verbatim>\<open>Buffer.isBuffer(input) ? input : Buffer.from(String(input), 'utf8')\<close>, with the
  encoder \<open>enc\<close> for \<^verbatim>\<open>'utf8'\<close>.
\<close>

definition to_bytes :: "(js_string \<Rightarrow> byte list) \<Rightarrow> input \<Rightarrow> byte list" where
  "to_bytes enc inp = (case inp of IsBuffer b \<Rightarrow> b | NotBuffer s \<Rightarrow> enc s)"

text \<open>
  \<^verbatim>\<open>append\<close> on the bytes. The result is the exception that escapes, if any, and the
  object as the call leaves it: the second branch assigns \<^verbatim>\<open>start\<close> and
  \<^verbatim>\<open>len\<close> before it copies.
\<close>

definition append_bytes :: "RingBuffer \<Rightarrow> byte list \<Rightarrow> js_error option \<times> RingBuffer" where
  "append_bytes rb b =
     (if limit rb \<le> int (length b) then
        (case buf_copy b (buf rb) 0 (int (length b) - limit rb) (int (length b)) of
           Inl e \<Rightarrow> (Some e, rb)
         | Inr buf1 \<Rightarrow> (None, rb\<lparr>buf := buf1, start := 0, len := limit rb\<rparr>))
      else
        let free = limit rb - len rb;
            rb1 = (if free < int (length b)
                   then rb\<lparr>start := js_rem (start rb + (int (length b) - free)) (limit rb),
                           len := limit rb\<rparr>
                   else rb\<lparr>len := len rb + int (length b)\<rparr>);
            writePos = js_rem (start rb1 + len rb1 - int (length b)) (limit rb1);
            firstPart = min (int (length b)) (limit rb1 - writePos)
        in case buf_copy b (buf rb1) writePos 0 firstPart of
             Inl e \<Rightarrow> (Some e, rb1)
           | Inr buf1 \<Rightarrow>
               if firstPart < int (length b) then
                 (case buf_copy b buf1 0 firstPart (int (length b)) of
                    Inl e \<Rightarrow> (Some e, rb1\<lparr>buf := buf1\<rparr>)
                  | Inr buf2 \<Rightarrow> (None, rb1\<lparr>buf := buf2\<rparr>))
               else (None, rb1\<lparr>buf := buf1\<rparr>))"

definition append_rb :: "(js_string \<Rightarrow> byte list) \<Rightarrow> RingBuffer \<Rightarrow> input \<Rightarrow> js_error option \<times> RingBuffer" where
  "append_rb enc rb inp = append_bytes rb (to_bytes enc inp)"

text \<open>
  \<^verbatim>\<open>toString(enc)\<close>, with the decoder \<open>dec\<close> of the encoding; \<^verbatim>\<open>Buffer.concat\<close> is
  list concatenation.
\<close>

definition toString :: "(byte list \<Rightarrow> js_string) \<Rightarrow> RingBuffer \<Rightarrow> js_string" where
  "toString dec rb =
     (if len rb = 0 then []
      else if start rb + len rb \<le> limit rb
        then dec (buf_slice (buf rb) (start rb) (start rb + len rb))
      else
        let tailLen = (start rb + len rb) - limit rb
        in dec (buf_slice (buf rb) (start rb) (limit rb) @ buf_slice (buf rb) 0 tailLen))"

text \<open>A sequence of appends; an exception that escapes ends it.\<close>

fun appends :: "(js_string \<Rightarrow> byte list) \<Rightarrow> RingBuffer \<Rightarrow> input list \<Rightarrow> js_error option \<times> RingBuffer" where
  "appends enc rb [] = (None, rb)"
| "appends enc rb (i # is) =
     (case append_rb enc rb i of
        (Some e, rb') \<Rightarrow> (Some e, rb')
      | (None, rb') \<Rightarrow> appends enc rb' is)"

text \<open>
  The index ranges \<open>[lo, hi)\<close> of the backing store that the calls of \<^verbatim>\<open>append\<close> ask
  to write, in the order of the calls, and those that \<^verbatim>\<open>toString\<close> asks to read.
\<close>

definition append_writes :: "RingBuffer \<Rightarrow> byte list \<Rightarrow> (int \<times> int) list" where
  "append_writes rb b =
     (if limit rb \<le> int (length b) then [(0, 0 + (int (length b) - (int (length b) - limit rb)))]
      else
        let free = limit rb - len rb;
            rb1 = (if free < int (length b)
                   then rb\<lparr>start := js_rem (start rb + (int (length b) - free)) (limit rb),
                           len := limit rb\<rparr>
                   else rb\<lparr>len := len rb + int (length b)\<rparr>);
            writePos = js_rem (start rb1 + len rb1 - int (length b)) (limit rb1);
            firstPart = min (int (length b)) (limit rb1 - writePos)
        in (writePos, writePos + (firstPart - 0))
           # (if firstPart < int (length b) then [(0, 0 + (int (length b) - firstPart))] else []))"

definition toString_reads :: "RingBuffer \<Rightarrow> (int \<times> int) list" where
  "toString_reads rb =
     (if len rb = 0 then []
      else if start rb + len rb \<le> limit rb then [(start rb, start rb + len rb)]
      else [(start rb, limit rb), (0, (start rb + len rb) - limit rb)])"

text \<open>The representation invariant, and the bytes the buffer holds, oldest first.\<close>

definition rb_inv :: "RingBuffer \<Rightarrow> bool" where
  "rb_inv rb \<longleftrightarrow>
     int (length (buf rb)) = limit rb \<and> 1 \<le> limit rb \<and>
     0 \<le> start rb \<and> start rb < limit rb \<and> 0 \<le> len rb \<and> len rb \<le> limit rb"

definition content :: "RingBuffer \<Rightarrow> byte list" where
  "content rb = take (nat (len rb)) (rotate (nat (start rb)) (buf rb))"

definition lastn :: "nat \<Rightarrow> 'a list \<Rightarrow> 'a list" where
  "lastn n xs = drop (length xs - n) xs"

definition in_store :: "RingBuffer \<Rightarrow> int \<times> int \<Rightarrow> bool" where
  "in_store rb r \<longleftrightarrow> 0 \<le> fst r \<and> fst r \<le> snd r \<and> snd r \<le> int (length (buf rb))"

text \<open>
  Writing \<open>b\<close> into \<open>xs\<close> from position \<open>p\<close> on, going round the end: what the two
  copies of the second branch of \<^verbatim>\<open>append\<close> amount to.
\<close>

definition circ_write :: "'a list \<Rightarrow> nat \<Rightarrow> 'a list \<Rightarrow> 'a list" where
  "circ_write xs p b =
     (let f = min (length b) (length xs - p);
          x1 = take p xs @ take f b @ drop (p + f) xs
      in if f < length b then drop f b @ drop (length b - f) x1 else x1)"

section \<open>Session names\<close>

text \<open>
  \<^verbatim>\<open>name.match(/^Term (\d+)$/)\<close> gives the digits after \<^verbatim>\<open>"Term "\<close>, and
  \<^verbatim>\<open>parseInt(match[1], 10)\<close> their value. (A value of \<open>2^53\<close> or more would be
  rounded by JavaScript; the model is exact.)
\<close>

definition is_digit :: "char \<Rightarrow> bool" where
  "is_digit c \<longleftrightarrow> (48::nat) \<le> of_char c \<and> of_char c \<le> (57::nat)"

definition parseInt :: "string \<Rightarrow> nat" where
  "parseInt ds = foldl (\<lambda>acc c. 10 * acc + (of_char c - 48)) 0 ds"

definition match_Term :: "string \<Rightarrow> string option" where
  "match_Term name =
     (if take 5 name = ''Term '' \<and> drop 5 name \<noteq> [] \<and> list_all is_digit (drop 5 name)
      then Some (drop 5 name) else None)"

definition usedNumbers :: "string list \<Rightarrow> nat list" where
  "usedNumbers names =
     sort (map the (filter (\<lambda>n. n \<noteq> None)
       (map (\<lambda>name. case match_Term name of Some ds \<Rightarrow> Some (parseInt ds) | None \<Rightarrow> None) names)))"

text \<open>The loop over \<^verbatim>\<open>usedNumbers\<close>; \<^verbatim>\<open>break\<close> returns the number reached.\<close>

fun scan_used :: "nat \<Rightarrow> nat list \<Rightarrow> nat" where
  "scan_used nextNumber [] = nextNumber"
| "scan_used nextNumber (num # rest) =
     (if num = nextNumber then scan_used (nextNumber + 1) rest else nextNumber)"

definition nextNumber_of :: "string list \<Rightarrow> nat" where
  "nextNumber_of names = scan_used 1 (usedNumbers names)"

text \<open>The decimal numeral of a number, as the template literal prints it.\<close>

fun decimal :: "nat \<Rightarrow> string" where
  "decimal n = (if n < 10 then [char_of (48 + n)]
                else decimal (n div 10) @ [char_of (48 + n mod 10)])"

declare decimal.simps [simp del]

definition Term_name :: "nat \<Rightarrow> string" where
  "Term_name sessionNumber = ''Term '' @ decimal sessionNumber"



section \<open>The server\<close>

type_synonym socket = nat
type_synonym pty = nat

record session =
  session_id :: string
  name :: string
  pty :: pty
  history :: RingBuffer

datatype message =
    SessionsList "(string \<times> string) list"
  | History string js_string
  | Output string input
  | SessionClosed string
  | Created string string

datatype pty_call = Write js_string | Resize int int

datatype console_line =
    ClientConnected socket
  | FailedToSpawn js_error
  | ErrorOnData string js_error
  | PtyExited string int

text \<open>
  The state of the server. Session objects live in \<open>heap\<close>, at the address they were
  created at: the handlers of a process hold their session by reference, in the registry or
  not. \<open>sessions\<close> is the \<^verbatim>\<open>Map\<close> from id to session, in insertion order;
  \<open>rooms\<close> are the rooms of socket.io, as pairs of a room and a member; \<open>sent\<close> is every
  message delivered to a socket, oldest first; \<open>pty_calls\<close> every call made on a process.
\<close>

record server =
  heap :: "session list"
  sessions :: "(string \<times> nat) list"
  connected :: "socket list"
  rooms :: "(string \<times> socket) list"
  sent :: "(socket \<times> message) list"
  pty_calls :: "(pty \<times> pty_call) list"
  console :: "console_line list"

definition initial :: server where
  "initial = \<lparr>heap = [], sessions = [], connected = [], rooms = [], sent = [],
              pty_calls = [], console = []\<rparr>"

definition HISTORY_LIMIT :: int where
  "HISTORY_LIMIT = 1024 * 512"

text \<open>\<^verbatim>\<open>sessions.get(id)\<close>: the address and the object, or nothing.\<close>

definition sessions_get :: "server \<Rightarrow> string \<Rightarrow> (nat \<times> session) option" where
  "sessions_get st sessionId =
     (case map_of (sessions st) sessionId of
        None \<Rightarrow> None
      | Some a \<Rightarrow> if a < length (heap st) then Some (a, heap st ! a) else None)"

text \<open>\<^verbatim>\<open>Array.from(sessions.values())\<close>\<close>

definition sessions_values :: "server \<Rightarrow> session list" where
  "sessions_values st =
     map (\<lambda>(k, a). heap st ! a) (filter (\<lambda>(k, a). a < length (heap st)) (sessions st))"

definition getNextSessionNumber :: "server \<Rightarrow> nat" where
  "getNextSessionNumber st = nextNumber_of (map name (sessions_values st))"

text \<open>The three ways the server sends, and \<^verbatim>\<open>socket.join\<close>.\<close>

definition members :: "server \<Rightarrow> string \<Rightarrow> socket list" where
  "members st room = map snd (filter (\<lambda>(r, k). r = room) (rooms st))"

definition socket_emit :: "server \<Rightarrow> socket \<Rightarrow> message \<Rightarrow> server" where
  "socket_emit st k msg = st\<lparr>sent := sent st @ [(k, msg)]\<rparr>"

definition io_emit :: "server \<Rightarrow> message \<Rightarrow> server" where
  "io_emit st msg = st\<lparr>sent := sent st @ map (\<lambda>k. (k, msg)) (connected st)\<rparr>"

definition io_to_emit :: "server \<Rightarrow> string \<Rightarrow> message \<Rightarrow> server" where
  "io_to_emit st room msg = st\<lparr>sent := sent st @ map (\<lambda>k. (k, msg)) (members st room)\<rparr>"

definition socket_join :: "server \<Rightarrow> socket \<Rightarrow> string \<Rightarrow> server" where
  "socket_join st k room =
     (if (room, k) \<in> set (rooms st) then st else st\<lparr>rooms := rooms st @ [(room, k)]\<rparr>)"

text \<open>
  What a call of \<^verbatim>\<open>createSession\<close> gets from outside: the id from \<^verbatim>\<open>uuidv4()\<close>,
  the process or the exception from \<^verbatim>\<open>pty.spawn\<close>, and the memory of the new buffer.
\<close>

record outside =
  uuid :: string
  spawned :: "js_error + pty"
  junk :: "nat \<Rightarrow> byte"

text \<open>
  \<^verbatim>\<open>createSession\<close> returns the address of the new session, or \<^verbatim>\<open>null\<close>. Its two
  handlers are \<open>on_data\<close> and \<open>on_exit\<close> below, at that address.
\<close>

definition createSession :: "outside \<Rightarrow> server \<Rightarrow> js_error + (nat option \<times> server)" where
  "createSession out st =
     (let id = uuid out in
      case spawned out of
        Inl err \<Rightarrow> Inr (None, st\<lparr>console := console st @ [FailedToSpawn err]\<rparr>)
      | Inr ptyProc \<Rightarrow>
          let sessionNumber = getNextSessionNumber st in
          case RingBuffer_new (junk out) HISTORY_LIMIT of
            Inl e \<Rightarrow> Inl e
          | Inr h \<Rightarrow>
              let session = \<lparr>session_id = id, name = Term_name sessionNumber,
                               pty = ptyProc, history = h\<rparr>;
                  a = length (heap st)
              in Inr (Some a, st\<lparr>heap := heap st @ [session],
                                   sessions := AList.update id a (sessions st)\<rparr>))"

definition on_data :: "(js_string \<Rightarrow> byte list) \<Rightarrow> server \<Rightarrow> nat \<Rightarrow> input \<Rightarrow> server" where
  "on_data enc st a d =
     (if a < length (heap st) then
        let session = heap st ! a in
        case append_rb enc (history session) d of
          (Some err, h) \<Rightarrow>
            st\<lparr>heap := (heap st)[a := session\<lparr>history := h\<rparr>],
                console := console st @ [ErrorOnData (session_id session) err]\<rparr>
        | (None, h) \<Rightarrow>
            io_to_emit (st\<lparr>heap := (heap st)[a := session\<lparr>history := h\<rparr>]\<rparr>)
              (session_id session) (Output (session_id session) d)
      else st)"

definition on_exit :: "server \<Rightarrow> nat \<Rightarrow> int \<Rightarrow> server" where
  "on_exit st a code =
     (if a < length (heap st) then
        let session = heap st ! a in
        io_emit (st\<lparr>console := console st @ [PtyExited (session_id session) code],
                     sessions := AList.delete (session_id session) (sessions st)\<rparr>)
          (SessionClosed (session_id session))
      else st)"

text \<open>The bootstrap call: \<^verbatim>\<open>if (sessions.size === 0) createSession()\<close>.\<close>

definition startup :: "outside \<Rightarrow> js_error + server" where
  "startup out =
     (if length (sessions initial) = 0
      then (case createSession out initial of Inl e \<Rightarrow> Inl e | Inr (s, st) \<Rightarrow> Inr st)
      else Inr initial)"

subsection \<open>The handlers of a connection\<close>

definition connection :: "server \<Rightarrow> socket \<Rightarrow> server" where
  "connection st k =
     socket_emit (st\<lparr>connected := connected st @ [k],
                      console := console st @ [ClientConnected k]\<rparr>) k
       (SessionsList (map (\<lambda>s. (session_id s, name s)) (sessions_values st)))"

definition subscribe_session :: "(byte list \<Rightarrow> js_string) \<Rightarrow> server \<Rightarrow> socket \<Rightarrow> string \<Rightarrow> server" where
  "subscribe_session dec st k sessionId =
     (case sessions_get st sessionId of
        None \<Rightarrow> st
      | Some (a, session) \<Rightarrow>
          let st1 = socket_join st k sessionId;
              h = toString dec (history session)
          in if length h \<noteq> 0 then socket_emit st1 k (History sessionId h) else st1)"

text \<open>\<open>callback\<close> says whether the argument of the request is a function.\<close>

definition create_session :: "server \<Rightarrow> socket \<Rightarrow> bool \<Rightarrow> outside \<Rightarrow> js_error + server" where
  "create_session st k callback out =
     (case createSession out st of
        Inl e \<Rightarrow> Inl e
      | Inr (None, st1) \<Rightarrow> Inr st1
      | Inr (Some a, st1) \<Rightarrow>
          if callback
          then Inr (socket_emit st1 k (Created (session_id (heap st1 ! a)) (name (heap st1 ! a))))
          else Inr st1)"

text \<open>
  \<open>thrown\<close> is the exception of the call on the process, if it raises one: that of
  \<^verbatim>\<open>write\<close> escapes the handler, that of \<^verbatim>\<open>resize\<close> is caught.
\<close>

definition terminal_input :: "server \<Rightarrow> string \<Rightarrow> js_string \<Rightarrow> js_error option \<Rightarrow> js_error + server" where
  "terminal_input st sessionId data thrown =
     (case sessions_get st sessionId of
        None \<Rightarrow> Inr st
      | Some (a, session) \<Rightarrow>
          (case thrown of
             Some e \<Rightarrow> Inl e
           | None \<Rightarrow> Inr (st\<lparr>pty_calls := pty_calls st @ [(pty session, Write data)]\<rparr>)))"

definition terminal_resize :: "server \<Rightarrow> string \<Rightarrow> int \<Rightarrow> int \<Rightarrow> js_error option \<Rightarrow> js_error + server" where
  "terminal_resize st sessionId cols rows thrown =
     (case sessions_get st sessionId of
        None \<Rightarrow> Inr st
      | Some (a, session) \<Rightarrow>
          (case thrown of
             Some e \<Rightarrow> Inr (st\<lparr>pty_calls := pty_calls st @ [(pty session, Resize cols rows)]\<rparr>)
           | None \<Rightarrow> Inr (st\<lparr>pty_calls := pty_calls st @ [(pty session, Resize cols rows)]\<rparr>)))"

subsection \<open>Events\<close>

text \<open>
  What happens to the server: a socket connects or sends a request, a process prints or
  exits. A socket connects once; a request is handled only for a connected socket, a
  process event only for a session that was created. The source has no handler for a
  socket that disconnects, and no event stands for it. An exception that escapes a handler
  ends the run.
\<close>

datatype event =
    Connection socket
  | SubscribeSession socket string
  | CreateSession socket bool outside
  | TerminalInput socket string js_string "js_error option"
  | TerminalResize socket string int int "js_error option"
  | PtyData nat input
  | PtyExit nat int

fun step :: "(js_string \<Rightarrow> byte list) \<Rightarrow> (byte list \<Rightarrow> js_string) \<Rightarrow> server \<Rightarrow> event \<Rightarrow> js_error + server" where
  "step enc dec st (Connection k) =
     (if k \<in> set (connected st) then Inr st else Inr (connection st k))"
| "step enc dec st (SubscribeSession k sessionId) =
     (if k \<in> set (connected st) then Inr (subscribe_session dec st k sessionId) else Inr st)"
| "step enc dec st (CreateSession k callback out) =
     (if k \<in> set (connected st) then create_session st k callback out else Inr st)"
| "step enc dec st (TerminalInput k sessionId data thrown) =
     (if k \<in> set (connected st) then terminal_input st sessionId data thrown else Inr st)"
| "step enc dec st (TerminalResize k sessionId cols rows thrown) =
     (if k \<in> set (connected st) then terminal_resize st sessionId cols rows thrown else Inr st)"
| "step enc dec st (PtyData a d) = Inr (on_data enc st a d)"
| "step enc dec st (PtyExit a code) = Inr (on_exit st a code)"

fun run :: "(js_string \<Rightarrow> byte list) \<Rightarrow> (byte list \<Rightarrow> js_string) \<Rightarrow> server \<Rightarrow> event list \<Rightarrow> js_error + server" where
  "run enc dec st [] = Inr st"
| "run enc dec st (ev # evs) =
     (case step enc dec st ev of Inl e \<Rightarrow> Inl e | Inr st' \<Rightarrow> run enc dec st' evs)"

text \<open>The chunks of a session that a list of messages delivers to a socket, in order.\<close>

definition outputs_of :: "string \<Rightarrow> socket \<Rightarrow> (socket \<times> message) list \<Rightarrow> input list" where
  "outputs_of sessionId k msgs =
     concat (map (\<lambda>(k', m). case m of Output i d \<Rightarrow> if k' = k \<and> i = sessionId then [d] else []
                                     | _ \<Rightarrow> []) msgs)"

text \<open>The id that an event registers, if it is a request to create a session.\<close>

definition created_id :: "event \<Rightarrow> string option" where
  "created_id ev = (case ev of CreateSession k callback out \<Rightarrow> Some (uuid out) | _ \<Rightarrow> None)"

text \<open>The id of the session whose process an event reports as exited, judged on a heap.\<close>

definition exited_id :: "session list \<Rightarrow> event \<Rightarrow> string option" where
  "exited_id h ev =
     (case ev of PtyExit a code \<Rightarrow> if a < length h then Some (session_id (h ! a)) else None
               | _ \<Rightarrow> None)"


text \<open>Every ring buffer of the heap satisfies its invariant.\<close>

definition server_inv :: "server \<Rightarrow> bool" where
  "server_inv st \<longleftrightarrow> list_all (\<lambda>s. rb_inv (history s)) (heap st)"

subsection \<open>Sample inputs\<close>

text \<open>
  Cleared memory, and the codec of ASCII text, where UTF-8 has one byte for each code unit.
\<close>

definition zero_junk :: "nat \<Rightarrow> byte" where
  "zero_junk i = 0"

definition ascii_enc :: "js_string \<Rightarrow> byte list" where
  "ascii_enc s = map ucast s"

definition ascii_dec :: "byte list \<Rightarrow> js_string" where
  "ascii_dec bs = map ucast bs"

text \<open>
  A server with one session, whose buffer of capacity 8 holds \<^verbatim>\<open>"hello"\<close>, and three
  sockets connected, the first two of them subscribed.
\<close>

definition hello_buffer :: RingBuffer where
  "hello_buffer = \<lparr>buf = [104, 101, 108, 108, 111, 0, 0, 0], limit = 8, start = 0, len = 5\<rparr>"

definition one_session :: session where
  "one_session = \<lparr>session_id = ''s-1'', name = ''Term 1'', pty = 7, history = hello_buffer\<rparr>"

definition sample_server :: server where
  "sample_server = \<lparr>heap = [one_session], sessions = [(''s-1'', 0)], connected = [1, 2, 3],
                    rooms = [(''s-1'', 1), (''s-1'', 2)], sent = [], pty_calls = [],
                    console = []\<rparr>"

definition spawn_ok :: outside where
  "spawn_ok = \<lparr>uuid = ''s-2'', spawned = Inr 8, junk = zero_junk\<rparr>"

definition spawn_fails :: outside where
  "spawn_fails = \<lparr>uuid = ''s-2'', spawned = Inl ERR_SPAWN, junk = zero_junk\<rparr>"

section \<open>Properties of the ring buffer\<close>

lemma js_rem_nonneg: "0 \<le> a \<Longrightarrow> 0 < b \<Longrightarrow> js_rem a b = a mod b"
  by (cases "a = 0") (simp_all add: js_rem_def)

lemma buf_copy_exact:
  assumes "s \<le> e" "e \<le> length src" "t + (e - s) \<le> length tgt"
  shows "buf_copy src tgt (int t) (int s) (int e)
         = Inr (take t tgt @ take (e - s) (drop s src) @ drop (t + (e - s)) tgt)"
proof (cases "length tgt \<le> t \<or> e \<le> s")
  case True
  with assms have "e = s" by auto
  with assms True show ?thesis by (auto simp: buf_copy_def)
next
  case False
  with assms have a: "int (length tgt) - int t \<ge> int e - int s" by auto
  from False assms have nb: "min (int e - int s) (int (length src) - int s) = int (e - s)" by auto
  from False assms show ?thesis
    using a by (simp add: buf_copy_def Let_def nb del: of_nat_diff) 
qed

lemma buf_slice_exact:
  assumes "s \<le> e" "e \<le> length b"
  shows "buf_slice b (int s) (int e) = take (e - s) (drop s b)"
  using assms by (simp add: buf_slice_def clamp_index_def Let_def)

lemma circ_write_fit:
  assumes "p + length b \<le> length xs"
  shows "rotate p (take p xs @ b @ drop (p + length b) xs) = b @ drop (length b) (rotate p xs)"
proof -
  have p: "p \<le> length xs" using assms by simp
  let ?ys = "take p xs @ b @ drop (p + length b) xs"
  have len: "length ?ys = length xs" using assms by simp
  show ?thesis
  proof (cases "p = length xs")
    case True
    with assms show ?thesis by simp
  next
    case False
    with p have lt: "p < length xs" by simp
    have "rotate p ?ys = drop p ?ys @ take p ?ys"
      using lt len by (simp add: rotate_drop_take del: length_append)
    also have "\<dots> = b @ drop (p + length b) xs @ take p xs"
      using p by simp
    also have "\<dots> = b @ drop (length b) (drop p xs @ take p xs)"
      using assms by (simp add: add.commute)
    also have "drop p xs @ take p xs = rotate p xs"
      using lt by (simp add: rotate_drop_take)
    finally show ?thesis .
  qed
qed

lemma rotate_append_length: "rotate (length A) (A @ B) = B @ A"
  by (metis rotate_append)

lemma circ_write_wrap:
  assumes p: "p < length xs" and b: "length b < length xs" and w: "length xs - p < length b"
  shows "rotate p (drop (length xs - p) b @ drop (length b - (length xs - p)) (take p xs @ take (length xs - p) b))
         = b @ drop (length b) (rotate p xs)"
proof -
  let ?f = "length xs - p"
  define A where "A = drop ?f b @ drop (length b - ?f) (take p xs)"
  have le: "length b - ?f \<le> p" using p b w by simp
  have ys: "drop ?f b @ drop (length b - ?f) (take p xs @ take ?f b) = A @ take ?f b"
    using le p by (simp add: A_def)
  have l1: "length A = p"
    using p b w by (simp add: A_def)
  have "rotate p (A @ take ?f b) = take ?f b @ A"
    using rotate_append_length [of A "take ?f b"] l1 by simp
  also have "\<dots> = b @ drop (length b - ?f) (take p xs)"
    by (simp add: A_def flip: append_assoc)
  also have "drop (length b - ?f) (take p xs) = drop (length b) (drop p xs @ take p xs)"
    using p w by simp
  also have "drop p xs @ take p xs = rotate p xs"
    using p by (simp add: rotate_drop_take)
  finally show ?thesis unfolding ys .
qed

lemma length_circ_write:
  "p < length xs \<Longrightarrow> length b < length xs \<Longrightarrow> length (circ_write xs p b) = length xs"
  by (auto simp: circ_write_def Let_def min_def)

lemma rotate_circ_write:
  assumes "p < length xs" "length b < length xs"
  shows "rotate p (circ_write xs p b) = b @ drop (length b) (rotate p xs)"
proof (cases "length xs - p < length b")
  case True
  then have "circ_write xs p b
      = drop (length xs - p) b @ drop (length b - (length xs - p)) (take p xs @ take (length xs - p) b)"
    using assms by (simp add: circ_write_def Let_def min_def)
  then show ?thesis using circ_write_wrap [OF assms True] by simp
next
  case False
  then have "circ_write xs p b = take p xs @ b @ drop (p + length b) xs"
    by (simp add: circ_write_def Let_def min_def)
  then show ?thesis using circ_write_fit [of p b xs] False assms by simp
qed

lemma rb_inv_nat:
  assumes "rb_inv rb"
  obtains n s l where "limit rb = int n" "start rb = int s" "len rb = int l"
    "length (buf rb) = n" "1 \<le> n" "s < n" "l \<le> n"
proof -
  from assms have "limit rb = int (nat (limit rb))" "start rb = int (nat (start rb))"
    "len rb = int (nat (len rb))" "length (buf rb) = nat (limit rb)" "1 \<le> nat (limit rb)"
    "nat (start rb) < nat (limit rb)" "nat (len rb) \<le> nat (limit rb)"
    by (auto simp: rb_inv_def)
  then show thesis by (rule that)
qed

lemma append_bytes_large:
  assumes "rb_inv rb" "limit rb \<le> int (length b)"
  shows "append_bytes rb b
         = (None, rb\<lparr>buf := drop (length b - nat (limit rb)) b, start := 0, len := limit rb\<rparr>)"
proof -
  from assms(1) obtain n s l where n: "limit rb = int n" "start rb = int s" "len rb = int l"
    "length (buf rb) = n" "1 \<le> n" "s < n" "l \<le> n" by (rule rb_inv_nat)
  from assms(2) n have le: "n \<le> length b" by simp
  have "buf_copy b (buf rb) (int 0) (int (length b - n)) (int (length b))
        = Inr (take 0 (buf rb) @ take (length b - (length b - n)) (drop (length b - n) b)
               @ drop (0 + (length b - (length b - n))) (buf rb))"
    by (rule buf_copy_exact) (use le n in auto)
  then have "buf_copy b (buf rb) 0 (int (length b) - int n) (int (length b))
        = Inr (drop (length b - n) b)"
    using le n by (simp add: of_nat_diff)
  then show ?thesis using assms(2) n by (simp add: append_bytes_def)
qed

lemma append_bytes_small:
  assumes "rb_inv rb" "int (length b) < limit rb"
  shows "append_bytes rb b
         = (None, rb\<lparr>buf := circ_write (buf rb) ((nat (start rb) + nat (len rb)) mod nat (limit rb)) b,
                  start := (if limit rb - len rb < int (length b)
                            then (start rb + (int (length b) - (limit rb - len rb))) mod limit rb
                            else start rb),
                  len := (if limit rb - len rb < int (length b) then limit rb
                          else len rb + int (length b))\<rparr>)"
proof -
  from assms(1) obtain n s l where n: "limit rb = int n" "start rb = int s" "len rb = int l"
    "length (buf rb) = n" "1 \<le> n" "s < n" "l \<le> n" by (rule rb_inv_nat)
  let ?m = "length b"
  from assms(2) n have lt: "?m < n" by simp
  define p where "p = (s + l) mod n"
  have p: "p < n" using n by (simp add: p_def)
  define f where "f = min ?m (n - p)"
  have fp: "min (int ?m) (int n - int p) = int f"
    using p by (simp add: f_def)
  have c1: "buf_copy b (buf rb) (int p) (int 0) (int f)
        = Inr (take p (buf rb) @ take (f - 0) (drop 0 b) @ drop (p + (f - 0)) (buf rb))"
    by (rule buf_copy_exact) (use p n in \<open>auto simp: f_def\<close>)
  define x1 where "x1 = take p (buf rb) @ take f b @ drop (p + f) (buf rb)"
  have lx1: "length x1 = n" using p n by (auto simp: x1_def f_def)
  have c2: "buf_copy b x1 (int 0) (int f) (int ?m)
        = Inr (take 0 x1 @ take (?m - f) (drop f b) @ drop (0 + (?m - f)) x1)"
    by (rule buf_copy_exact) (use lt lx1 in \<open>auto simp: f_def\<close>)
  have cw: "circ_write (buf rb) p b = (if f < ?m then drop f b @ drop (?m - f) x1 else x1)"
    using n by (simp add: circ_write_def Let_def f_def x1_def)
  have c1': "buf_copy b (buf rb) (int p) 0 (int f) = Inr x1"
    using c1 by (simp add: x1_def)
  have c2': "buf_copy b x1 0 (int f) (int ?m) = Inr (drop f b @ drop (?m - f) x1)"
    using c2 by simp
  show ?thesis
  proof (cases "int n - int l < int ?m")
    case True
    define S where "S = (int s + (int ?m - (int n - int l))) mod int n"
    have S: "js_rem (int s + (int ?m - (int n - int l))) (int n) = S"
      using True n by (simp add: js_rem_nonneg S_def)
    have "(S + (int n - int ?m)) mod int n
          = ((int s + (int ?m - (int n - int l))) + (int n - int ?m)) mod int n"
      unfolding S_def by (rule mod_add_left_eq)
    also have "(int s + (int ?m - (int n - int l))) + (int n - int ?m) = int s + int l" by simp
    finally have "(S + int n - int ?m) mod int n = int p"
      by (simp add: p_def zmod_int algebra_simps)
    moreover have "0 \<le> S" using n by (simp add: S_def)
    ultimately have wp: "js_rem (S + int n - int ?m) (int n) = int p"
      using n lt by (simp add: js_rem_nonneg)
    show ?thesis
      unfolding append_bytes_def
      using assms(2) True n
      by (simp add: Let_def S wp fp c1' c2' cw) (simp add: cw [unfolded p_def] p_def S_def nat_add_distrib)
  next
    case False
    have wp: "js_rem (int s + int l) (int n) = int p"
      using n by (simp add: js_rem_nonneg p_def zmod_int)
    show ?thesis
      unfolding append_bytes_def
      using assms(2) False n
      by (simp add: Let_def wp fp c1' c2' cw) (simp add: cw [unfolded p_def] p_def nat_add_distrib)
  qed
qed

lemma rotate_mod_cong: "a mod length xs = b mod length xs \<Longrightarrow> rotate a xs = rotate b xs"
  by (metis rotate_conv_mod)

lemma length_content: "rb_inv rb \<Longrightarrow> length (content rb) = nat (len rb)"
  by (auto simp: rb_inv_def content_def)

lemma content_large:
  assumes "rb_inv rb" "limit rb \<le> int (length b)"
  shows "content (rb\<lparr>buf := drop (length b - nat (limit rb)) b, start := 0, len := limit rb\<rparr>)
         = lastn (nat (limit rb)) (content rb @ b)"
proof -
  from assms(1) obtain n s l where n: "limit rb = int n" "start rb = int s" "len rb = int l"
    "length (buf rb) = n" "1 \<le> n" "s < n" "l \<le> n" by (rule rb_inv_nat)
  have lc: "length (content rb) = l" using length_content [OF assms(1)] n by simp
  from assms(2) n have le: "n \<le> length b" by simp
  have "lastn n (content rb @ b) = drop (length b - n) b"
    using le n lc by (simp add: lastn_def)
  moreover have "content (rb\<lparr>buf := drop (length b - n) b, start := 0, len := int n\<rparr>)
      = drop (length b - n) b"
    using le by (simp add: content_def)
  ultimately show ?thesis using n by simp
qed

lemma content_small:
  assumes "rb_inv rb" "int (length b) < limit rb"
  shows "content (rb\<lparr>buf := circ_write (buf rb) ((nat (start rb) + nat (len rb)) mod nat (limit rb)) b,
                  start := (if limit rb - len rb < int (length b)
                            then (start rb + (int (length b) - (limit rb - len rb))) mod limit rb
                            else start rb),
                  len := (if limit rb - len rb < int (length b) then limit rb
                          else len rb + int (length b))\<rparr>)
         = lastn (nat (limit rb)) (content rb @ b)"
proof -
  from assms(1) obtain n s l where n: "limit rb = int n" "start rb = int s" "len rb = int l"
    "length (buf rb) = n" "1 \<le> n" "s < n" "l \<le> n" by (rule rb_inv_nat)
  let ?m = "length b"
  from assms(2) n have lt: "?m < n" by simp
  define p where "p = (s + l) mod n"
  have p: "p < n" using n by (simp add: p_def)
  define R where "R = rotate s (buf rb)"
  have lR: "length R = n" using n by (simp add: R_def)
  have cont: "content rb = take l R" using n by (simp add: content_def R_def)
  define W where "W = circ_write (buf rb) p b"
  have lW: "length W = n" using length_circ_write [of p "buf rb" b] p lt n by (simp add: W_def)
  have "rotate p (buf rb) = rotate (l + s) (buf rb)"
    by (rule rotate_mod_cong) (use n in \<open>simp add: p_def add.commute\<close>)
  also have "\<dots> = rotate l R" by (simp add: R_def rotate_rotate)
  also have "\<dots> = drop l R @ take l R"
  proof (cases "l = n")
    case True then show ?thesis using lR by simp
  next
    case False then show ?thesis using n lR by (simp add: rotate_drop_take)
  qed
  finally have rp: "rotate p (buf rb) = drop l R @ take l R" .
  have rW: "rotate p W = b @ drop ?m (drop l R @ take l R)"
    unfolding W_def using rotate_circ_write [of p "buf rb" b] p lt n rp by simp
  show ?thesis
  proof (cases "n - l < ?m")
    case True
    define s' where "s' = (s + (?m - (n - l))) mod n"
    have "rotate s' W = rotate (?m + p) W"
    proof (rule rotate_mod_cong)
      have "(?m + p) mod n = (?m + (s + l)) mod n"
        unfolding p_def by (rule mod_add_right_eq)
      also have "?m + (s + l) = (s + (?m - (n - l))) + n" using True n by simp
      also have "\<dots> mod n = s' mod n" by (simp add: s'_def)
      finally show "s' mod length W = (?m + p) mod length W" using lW by simp
    qed
    also have "\<dots> = rotate ?m (rotate p W)" by (simp add: rotate_rotate)
    also have "\<dots> = rotate ?m (b @ drop (?m - (n - l)) (take l R))"
      using rW True lR n by (simp add: add.commute)
    also have "\<dots> = drop (?m - (n - l)) (take l R) @ b"
      by (rule rotate_append_length)
    finally have rs: "rotate s' W = drop (?m - (n - l)) (take l R) @ b" .
    have "length (drop (?m - (n - l)) (take l R) @ b) = n"
      using True lR n lt by simp
    then have "take n (rotate s' W) = drop (?m - (n - l)) (take l R) @ b"
      using rs by simp
    moreover have "lastn n (content rb @ b) = drop (?m - (n - l)) (take l R) @ b"
      using True lR n lt by (simp add: lastn_def cont add.commute)
    moreover have "(int s + (int ?m - (int n - int l))) mod int n = int s'"
    proof -
      have h: "int (s + (?m - (n - l))) = int s + (int ?m - (int n - int l))"
        using True n by simp
      show ?thesis unfolding s'_def zmod_int h by (rule refl)
    qed
    moreover have "int n - int l < int ?m" using True n by linarith
    ultimately show ?thesis using n
      by (simp add: content_def W_def [symmetric] p_def [symmetric])
  next
    case False
    have "rotate s W = rotate ((n - l) + p) W"
    proof (rule rotate_mod_cong)
      have "((n - l) + p) mod n = ((n - l) + (s + l)) mod n"
        unfolding p_def by (rule mod_add_right_eq)
      also have "(n - l) + (s + l) = s + n" using n by simp
      finally show "s mod length W = ((n - l) + p) mod length W" using lW by simp
    qed
    also have "\<dots> = rotate (n - l) (rotate p W)" by (simp add: rotate_rotate)
    also have "\<dots> = rotate (n - l) ((b @ drop (?m + l) R) @ take l R)"
      using rW False lR n by (simp add: add.commute)
    also have "\<dots> = take l R @ b @ drop (?m + l) R"
      using rotate_append_length [of "b @ drop (?m + l) R" "take l R"] False lR n by simp
    finally have rs: "rotate s W = take l R @ b @ drop (?m + l) R" .
    have "take (l + ?m) (rotate s W) = take l R @ b"
      unfolding rs using lR n by simp
    moreover have "lastn n (content rb @ b) = take l R @ b"
      using False lR n by (simp add: lastn_def cont)
    moreover have "\<not> int n - int l < int ?m" using False n by linarith
    ultimately show ?thesis using n
      by (simp add: content_def W_def [symmetric] p_def [symmetric] nat_add_distrib)
  qed
qed

lemma toString_content:
  assumes "rb_inv rb"
  shows "toString dec rb = (if len rb = 0 then [] else dec (content rb))"
proof -
  from assms obtain n s l where n: "limit rb = int n" "start rb = int s" "len rb = int l"
    "length (buf rb) = n" "1 \<le> n" "s < n" "l \<le> n" by (rule rb_inv_nat)
  have rot: "rotate s (buf rb) = drop s (buf rb) @ take s (buf rb)"
    using n by (simp add: rotate_drop_take)
  show ?thesis
  proof (cases "s + l \<le> n")
    case True
    have "buf_slice (buf rb) (int s) (int (s + l)) = take (s + l - s) (drop s (buf rb))"
      by (rule buf_slice_exact) (use True n in auto)
    moreover have "content rb = take l (drop s (buf rb))"
      using True n by (simp add: content_def rot)
    ultimately show ?thesis using True n by (simp add: toString_def)
  next
    case False
    have a: "buf_slice (buf rb) (int s) (int n) = take (n - s) (drop s (buf rb))"
      by (rule buf_slice_exact) (use n in auto)
    have b: "buf_slice (buf rb) (int 0) (int (s + l - n)) = take (s + l - n - 0) (drop 0 (buf rb))"
      by (rule buf_slice_exact) (use n in auto)
    have "content rb = drop s (buf rb) @ take (s + l - n) (buf rb)"
      using False n by (auto simp: content_def rot min_def add.commute)
    moreover have "int s + int l - int n = int (s + l - n)" using False by simp
    moreover have "\<not> int s + int l \<le> int n" "l \<noteq> 0" using False n by auto
    ultimately show ?thesis using n a b by (simp add: toString_def Let_def del: of_nat_diff of_nat_add)
  qed
qed

lemma rb_inv_large:
  assumes "rb_inv rb" "limit rb \<le> int (length b)"
  shows "rb_inv (rb\<lparr>buf := drop (length b - nat (limit rb)) b, start := 0, len := limit rb\<rparr>)"
  using assms by (auto simp: rb_inv_def)

lemma rb_inv_small:
  assumes "rb_inv rb" "int (length b) < limit rb"
  shows "rb_inv (rb\<lparr>buf := circ_write (buf rb) ((nat (start rb) + nat (len rb)) mod nat (limit rb)) b,
                  start := (if limit rb - len rb < int (length b)
                            then (start rb + (int (length b) - (limit rb - len rb))) mod limit rb
                            else start rb),
                  len := (if limit rb - len rb < int (length b) then limit rb
                          else len rb + int (length b))\<rparr>)"
proof -
  from assms(1) obtain n s l where n: "limit rb = int n" "start rb = int s" "len rb = int l"
    "length (buf rb) = n" "1 \<le> n" "s < n" "l \<le> n" by (rule rb_inv_nat)
  have "length (circ_write (buf rb) ((s + l) mod n) b) = n"
    using length_circ_write [of "(s + l) mod n" "buf rb" b] n assms(2) by simp
  then show ?thesis using n assms(2) by (auto simp: rb_inv_def)
qed

lemma append_bytes_step:
  assumes "rb_inv rb"
  shows "\<exists>rb'. append_bytes rb b = (None, rb') \<and> rb_inv rb' \<and> limit rb' = limit rb
           \<and> content rb' = lastn (nat (limit rb)) (content rb @ b)"
proof (cases "limit rb \<le> int (length b)")
  case True
  show ?thesis
    using append_bytes_large [OF assms True] rb_inv_large [OF assms True]
      content_large [OF assms True] by simp
next
  case False
  then have lt: "int (length b) < limit rb" by simp
  show ?thesis
    using append_bytes_small [OF assms lt] rb_inv_small [OF assms lt]
      content_small [OF assms lt] by simp
qed

lemma append_bytes_Nil:
  assumes "rb_inv rb"
  shows "append_bytes rb [] = (None, rb)"
proof -
  from assms obtain n s l where n: "limit rb = int n" "start rb = int s" "len rb = int l"
    "length (buf rb) = n" "1 \<le> n" "s < n" "l \<le> n" by (rule rb_inv_nat)
  have "buf_copy [] (buf rb) t 0 0 = Inr (buf rb)" if "0 \<le> t" for t
    using that by (simp add: buf_copy_def)
  moreover have "0 \<le> js_rem (int s + int l) (int n)"
    using n by (simp add: js_rem_nonneg)
  moreover have "js_rem (int s + int l) (int n) < int n"
    using n by (simp add: js_rem_nonneg)
  ultimately show ?thesis
    using n by (simp add: append_bytes_def Let_def min_def)
qed

lemma RingBuffer_new_inv:
  assumes "1 \<le> C"
  shows "RingBuffer_new mem C = Inr \<lparr>buf = map mem [0..<nat C], limit = C, start = 0, len = 0\<rparr>"
    and "rb_inv \<lparr>buf = map mem [0..<nat C], limit = C, start = 0, len = 0\<rparr>"
    and "content \<lparr>buf = map mem [0..<nat C], limit = C, start = 0, len = 0\<rparr> = []"
  using assms by (simp_all add: RingBuffer_new_def rb_inv_def content_def)

lemma lastn_lastn_append: "lastn n (lastn n xs @ ys) = lastn n (xs @ ys)"
proof (cases "n \<le> length xs")
  case True
  then have "length xs + length ys - n = (length xs - n) + length ys" by simp
  then show ?thesis using True by (simp add: lastn_def add.commute)
next
  case False
  then show ?thesis by (simp add: lastn_def)
qed

lemma appends_content:
  assumes "rb_inv rb"
  shows "\<exists>rb'. appends enc rb inputs = (None, rb') \<and> rb_inv rb' \<and> limit rb' = limit rb
           \<and> lastn (nat (limit rb)) (content rb') 
               = lastn (nat (limit rb)) (content rb @ concat (map (to_bytes enc) inputs))"
  using assms
proof (induction inputs arbitrary: rb)
  case Nil
  then show ?case by simp
next
  case (Cons i inputs)
  from append_bytes_step [OF Cons.prems, of "to_bytes enc i"]
  obtain rb1 where rb1: "append_rb enc rb i = (None, rb1)" "rb_inv rb1" "limit rb1 = limit rb"
    "content rb1 = lastn (nat (limit rb)) (content rb @ to_bytes enc i)"
    by (auto simp: append_rb_def)
  from Cons.IH [OF rb1(2)] obtain rb' where rb': "appends enc rb1 inputs = (None, rb')" "rb_inv rb'"
    "limit rb' = limit rb1"
    "lastn (nat (limit rb1)) (content rb')
       = lastn (nat (limit rb1)) (content rb1 @ concat (map (to_bytes enc) inputs))"
    by blast
  have "lastn (nat (limit rb)) (content rb')
       = lastn (nat (limit rb)) (content rb @ to_bytes enc i @ concat (map (to_bytes enc) inputs))"
    using rb'(4) rb1(3,4) lastn_lastn_append [of "nat (limit rb)" "content rb @ to_bytes enc i"]
    by simp
  then show ?case using rb1 rb' by simp
qed

lemma lastn_short: "length xs \<le> n \<Longrightarrow> lastn n xs = xs"
  by (simp add: lastn_def)

lemma lastn_eq_Nil: "lastn n xs = [] \<longleftrightarrow> xs = [] \<or> n = 0"
  by (cases xs) (auto simp: lastn_def)

lemma appends_from_new:
  assumes "1 \<le> C"
  shows "\<exists>rb0 rb. RingBuffer_new mem C = Inr rb0 \<and> appends enc rb0 inputs = (None, rb)
           \<and> rb_inv rb \<and> limit rb = C
           \<and> content rb = lastn (nat C) (concat (map (to_bytes enc) inputs))"
proof -
  let ?rb0 = "\<lparr>buf = map mem [0..<nat C], limit = C, start = 0, len = 0\<rparr>"
  note new = RingBuffer_new_inv [OF assms, of mem]
  from appends_content [OF new(2), of enc inputs]
  obtain rb where rb: "appends enc ?rb0 inputs = (None, rb)" "rb_inv rb" "limit rb = C"
    "lastn (nat C) (content rb) = lastn (nat C) (content ?rb0 @ concat (map (to_bytes enc) inputs))"
    by auto
  have "length (content rb) \<le> nat C"
    using length_content [OF rb(2)] rb(2,3) by (auto simp: rb_inv_def intro: nat_mono)
  then have "lastn (nat C) (content rb) = content rb" by (rule lastn_short)
  then show ?thesis using rb new by simp
qed

lemma append_writes_in_store:
  assumes "rb_inv rb"
  shows "list_all (in_store rb) (append_writes rb b)"
proof -
  from assms obtain n s l where n: "limit rb = int n" "start rb = int s" "len rb = int l"
    "length (buf rb) = n" "1 \<le> n" "s < n" "l \<le> n" by (rule rb_inv_nat)
  show ?thesis
  proof (cases "int n \<le> int (length b)")
    case True
    then show ?thesis using n by (simp add: append_writes_def in_store_def)
  next
    case False
    define s1 where "s1 = (if int n - int l < int (length b)
        then js_rem (int s + (int (length b) - (int n - int l))) (int n) else int s)"
    define l1 where "l1 = (if int n - int l < int (length b) then int n else int l + int (length b))"
    define wp where "wp = js_rem (s1 + l1 - int (length b)) (int n)"
    have "0 \<le> s1" using n by (simp add: s1_def js_rem_nonneg)
    moreover have "int (length b) \<le> l1" using False by (simp add: l1_def)
    ultimately have "0 \<le> s1 + l1 - int (length b)" by simp
    then have wp: "0 \<le> wp" "wp < int n" using n by (simp_all add: wp_def js_rem_nonneg)
    have "append_writes rb b =
        (wp, wp + min (int (length b)) (int n - wp))
        # (if min (int (length b)) (int n - wp) < int (length b)
           then [(0, int (length b) - min (int (length b)) (int n - wp))] else [])"
      using False n by (auto simp: append_writes_def Let_def wp_def s1_def l1_def)
    then show ?thesis using wp False n by (auto simp: in_store_def min_def)
  qed
qed

lemma toString_reads_in_store:
  assumes "rb_inv rb"
  shows "list_all (in_store rb) (toString_reads rb)"
  using assms by (auto simp: toString_reads_def in_store_def rb_inv_def)

text \<open>
  Claim C1. For a buffer of capacity \<open>C \<ge> 1\<close> and any sequence of appends, no append
  raises, and \<^verbatim>\<open>toString\<close> is the decoding of the last \<open>min (total, C)\<close> bytes of
  all the bytes appended, in the order they were appended (the empty string when nothing was
  appended). Appending, after that, one chunk of \<open>C\<close> bytes or more leaves exactly the
  last \<open>C\<close> bytes of that chunk. The decoder is arbitrary, so the statement is one about
  the bytes.
\<close>

theorem contents_last_bytes:
  assumes "1 \<le> C"
  shows "\<exists>rb0 rb. RingBuffer_new mem C = Inr rb0 \<and> appends enc rb0 inputs = (None, rb) \<and>
           toString dec rb
             = (let total = concat (map (to_bytes enc) inputs)
                in if total = [] then [] else dec (lastn (min (length total) (nat C)) total)) \<and>
           (C \<le> int (length (to_bytes enc chunk)) \<longrightarrow>
              (\<exists>rb'. append_rb enc rb chunk = (None, rb') \<and>
                 toString dec rb' = dec (lastn (nat C) (to_bytes enc chunk))))"
proof -
  let ?total = "concat (map (to_bytes enc) inputs)"
  from appends_from_new [OF assms, of mem enc inputs]
  obtain rb0 rb where rb: "RingBuffer_new mem C = Inr rb0" "appends enc rb0 inputs = (None, rb)"
    "rb_inv rb" "limit rb = C" "content rb = lastn (nat C) ?total"
    by blast
  have min: "lastn (min (length ?total) (nat C)) ?total = lastn (nat C) ?total"
    by (simp add: lastn_def min_def)
  have "len rb = 0 \<longleftrightarrow> ?total = []"
  proof -
    have "len rb = 0 \<longleftrightarrow> content rb = []"
      using length_content [OF rb(3)] rb(3) by (auto simp: rb_inv_def)
    also have "\<dots> \<longleftrightarrow> ?total = []"
      using assms unfolding rb(5) lastn_eq_Nil by simp
    finally show ?thesis .
  qed
  then have a: "toString dec rb
     = (let total = ?total in if total = [] then [] else dec (lastn (min (length total) (nat C)) total))"
    using toString_content [OF rb(3), of dec] rb(5) min by (simp add: Let_def)
  have b: "\<exists>rb'. append_rb enc rb chunk = (None, rb') \<and>
                 toString dec rb' = dec (lastn (nat C) (to_bytes enc chunk))"
    if big: "C \<le> int (length (to_bytes enc chunk))"
  proof -
    let ?b = "to_bytes enc chunk"
    from append_bytes_step [OF rb(3), of ?b]
    obtain rb' where rb': "append_bytes rb ?b = (None, rb')" "rb_inv rb'" "limit rb' = limit rb"
      "content rb' = lastn (nat (limit rb)) (content rb @ ?b)" by blast
    have "lastn (nat C) (content rb @ ?b) = lastn (nat C) ?b"
      using big by (simp add: lastn_def)
    then have c: "content rb' = lastn (nat C) ?b" using rb'(4) rb(4) by simp
    have "?b \<noteq> []" using big assms by auto
    then have "content rb' \<noteq> []" using assms unfolding c lastn_eq_Nil by simp
    then have "len rb' \<noteq> 0" using length_content [OF rb'(2)] by auto
    then show ?thesis using toString_content [OF rb'(2), of dec] rb'(1) c
      by (simp add: append_rb_def)
  qed
  show ?thesis using rb(1,2) a b by blast
qed

text \<open>
  Capacity 5: \<^verbatim>\<open>"abc"\<close> then \<^verbatim>\<open>"XYZ"\<close> leave \<^verbatim>\<open>"bcXYZ"\<close>, and
  \<^verbatim>\<open>"1234567"\<close> after them leaves \<^verbatim>\<open>"34567"\<close>.
\<close>

theorem contents_last_bytes_witness:
  "(1::int) \<le> 5 \<and>
   5 \<le> int (length (to_bytes ascii_enc (IsBuffer [49, 50, 51, 52, 53, 54, 55]))) \<and>
   (\<exists>rb0 rb. RingBuffer_new zero_junk 5 = Inr rb0 \<and>
      appends ascii_enc rb0 [IsBuffer [97, 98, 99], IsBuffer [88, 89, 90]] = (None, rb) \<and>
      toString ascii_dec rb = ascii_dec [98, 99, 88, 89, 90] \<and>
      (\<exists>rb'. append_rb ascii_enc rb (IsBuffer [49, 50, 51, 52, 53, 54, 55]) = (None, rb') \<and>
         toString ascii_dec rb' = ascii_dec [51, 52, 53, 54, 55]))"
  using contents_last_bytes [where C = 5 and mem = zero_junk and enc = ascii_enc
      and inputs = "[IsBuffer [97, 98, 99], IsBuffer [88, 89, 90]]" and dec = ascii_dec
      and chunk = "IsBuffer [49, 50, 51, 52, 53, 54, 55]"]
  by (auto simp: to_bytes_def lastn_def)

text \<open>
  Claim C9. For a capacity \<open>C \<ge> 1\<close> the constructor returns a buffer that satisfies
  the invariant \<open>0 \<le> start < C\<close>, \<open>0 \<le> len \<le> C\<close> (over a backing store of \<open>C\<close>
  bytes), and an append of any input to a buffer that satisfies it raises nothing and
  returns one that satisfies it. Every range of the backing store that the append asks to
  write, and every range that a \<^verbatim>\<open>toString\<close> after it asks to read, lies within
  \<open>[0, C)\<close>.
\<close>

theorem RingBuffer_invariant:
  assumes "1 \<le> C"
  shows "\<exists>rb0. RingBuffer_new mem C = Inr rb0 \<and> limit rb0 = C \<and> rb_inv rb0 \<and>
           (rb_inv rb \<and> limit rb = C \<longrightarrow>
              (\<exists>rb'. append_rb enc rb inp = (None, rb') \<and> limit rb' = C \<and> rb_inv rb' \<and>
                 list_all (in_store rb) (append_writes rb (to_bytes enc inp)) \<and>
                 list_all (in_store rb') (toString_reads rb')))"
proof -
  note new = RingBuffer_new_inv [OF assms, of mem]
  have step: "\<exists>rb'. append_rb enc rb inp = (None, rb') \<and> limit rb' = C \<and> rb_inv rb' \<and>
                 list_all (in_store rb) (append_writes rb (to_bytes enc inp)) \<and>
                 list_all (in_store rb') (toString_reads rb')"
    if inv: "rb_inv rb" and lim: "limit rb = C"
  proof -
    let ?b = "to_bytes enc inp"
    from append_bytes_step [OF inv, of ?b]
    obtain rb' where rb': "append_bytes rb ?b = (None, rb')" "rb_inv rb'" "limit rb' = limit rb"
      by blast
    have w: "list_all (in_store rb) (append_writes rb ?b)"
      by (rule append_writes_in_store [OF inv])
    have r: "list_all (in_store rb') (toString_reads rb')"
      by (rule toString_reads_in_store [OF rb'(2)])
    show ?thesis using rb' w r lim by (simp add: append_rb_def)
  qed
  show ?thesis using new step by auto
qed

text \<open>A buffer of capacity 4 that holds three bytes and wraps, and three more bytes.\<close>

theorem RingBuffer_invariant_witness:
  "(1::int) \<le> 4 \<and>
   rb_inv \<lparr>buf = [1, 2, 3, 4], limit = 4, start = 2, len = 3\<rparr> \<and>
   limit \<lparr>buf = [1, 2, 3, 4], limit = 4, start = 2, len = 3\<rparr> = 4 \<and>
   (\<exists>rb0. RingBuffer_new zero_junk 4 = Inr rb0 \<and> rb_inv rb0) \<and>
   (\<exists>rb'. append_rb ascii_enc \<lparr>buf = [1, 2, 3, 4], limit = 4, start = 2, len = 3\<rparr>
             (IsBuffer [5, 6, 7]) = (None, rb') \<and> rb_inv rb')"
  using RingBuffer_invariant [where C = 4 and mem = zero_junk and enc = ascii_enc
      and rb = "\<lparr>buf = [1, 2, 3, 4], limit = 4, start = 2, len = 3\<rparr>"
      and inp = "IsBuffer [5, 6, 7]"]
  by (auto simp: rb_inv_def)

text \<open>
  Claim C10. Appending an input of no bytes (an empty \<^verbatim>\<open>Buffer\<close>, or a value whose string
  encodes to nothing) to a buffer that satisfies the invariant, as every reachable buffer
  does, raises nothing and returns the same object state: \<open>buf\<close>, \<open>start\<close>, \<open>len\<close>
  and with them the result of \<^verbatim>\<open>toString\<close> are unchanged. \<^verbatim>\<open>toString\<close> itself is a
  function of the state and assigns no field, so two calls on an unchanged state agree.
\<close>

theorem append_empty_identity:
  assumes "rb_inv rb" and "to_bytes enc inp = []"
  shows "append_rb enc rb inp = (None, rb)"
  using append_bytes_Nil [OF assms(1)] assms(2) by (simp add: append_rb_def)

text \<open>The empty string appended to a buffer that wraps.\<close>

theorem append_empty_identity_witness:
  "rb_inv \<lparr>buf = [1, 2, 3, 4], limit = 4, start = 2, len = 3\<rparr> \<and>
   to_bytes ascii_enc (NotBuffer []) = [] \<and>
   append_rb ascii_enc \<lparr>buf = [1, 2, 3, 4], limit = 4, start = 2, len = 3\<rparr> (NotBuffer [])
     = (None, \<lparr>buf = [1, 2, 3, 4], limit = 4, start = 2, len = 3\<rparr>)"
  using append_empty_identity [where enc = ascii_enc and inp = "NotBuffer []"
      and rb = "\<lparr>buf = [1, 2, 3, 4], limit = 4, start = 2, len = 3\<rparr>"]
  by (simp add: rb_inv_def to_bytes_def ascii_enc_def)

section \<open>Properties of the name allocation\<close>













section \<open>Properties of the server\<close>

lemma HISTORY_LIMIT_new:
  "RingBuffer_new mem HISTORY_LIMIT
     = Inr \<lparr>buf = map mem [0..<nat HISTORY_LIMIT], limit = HISTORY_LIMIT, start = 0, len = 0\<rparr>"
  "rb_inv \<lparr>buf = map mem [0..<nat HISTORY_LIMIT], limit = HISTORY_LIMIT, start = 0, len = 0\<rparr>"
proof -
  have "1 \<le> HISTORY_LIMIT" by (simp add: HISTORY_LIMIT_def)
  then show "RingBuffer_new mem HISTORY_LIMIT
     = Inr \<lparr>buf = map mem [0..<nat HISTORY_LIMIT], limit = HISTORY_LIMIT, start = 0, len = 0\<rparr>"
    "rb_inv \<lparr>buf = map mem [0..<nat HISTORY_LIMIT], limit = HISTORY_LIMIT, start = 0, len = 0\<rparr>"
    by (rule RingBuffer_new_inv)+
qed

lemma createSession_ok:
  assumes "spawned out = Inr p"
  shows "createSession out st
         = Inr (Some (length (heap st)),
                st\<lparr>heap := heap st @ [\<lparr>session_id = uuid out,
                                         name = Term_name (getNextSessionNumber st), pty = p,
                                         history = \<lparr>buf = map (junk out) [0..<nat HISTORY_LIMIT],
                                                     limit = HISTORY_LIMIT, start = 0, len = 0\<rparr>\<rparr>],
                    sessions := AList.update (uuid out) (length (heap st)) (sessions st)\<rparr>)"
  using assms by (simp add: createSession_def Let_def HISTORY_LIMIT_new)

lemma createSession_fail:
  assumes "spawned out = Inl err"
  shows "createSession out st = Inr (None, st\<lparr>console := console st @ [FailedToSpawn err]\<rparr>)"
  using assms by (simp add: createSession_def)

lemma sessions_get_None: "map_of (sessions st) i = None \<Longrightarrow> sessions_get st i = None"
  by (simp add: sessions_get_def)

lemma Term_name_1: "Term_name (Suc 0) = ''Term 1''"
  by code_simp

lemma createSession_cases:
  obtains (fail) err where "spawned out = Inl err"
      "createSession out st = Inr (None, st\<lparr>console := console st @ [FailedToSpawn err]\<rparr>)"
  | (ok) p s where "spawned out = Inr p" "session_id s = uuid out"
      "rb_inv (history s)"
      "createSession out st
         = Inr (Some (length (heap st)),
                st\<lparr>heap := heap st @ [s],
                    sessions := AList.update (uuid out) (length (heap st)) (sessions st)\<rparr>)"
proof (cases "spawned out")
  case (Inl err)
  then show ?thesis using createSession_fail [OF Inl] fail by blast
next
  case (Inr p)
  show ?thesis
    by (rule ok [OF Inr _ _ createSession_ok [OF Inr]]) (simp_all add: HISTORY_LIMIT_new)
qed

lemma on_data_fields:
  "sessions (on_data enc st a d) = sessions st"
  "connected (on_data enc st a d) = connected st"
  "rooms (on_data enc st a d) = rooms st"
  "length (heap (on_data enc st a d)) = length (heap st)"
  "b < length (heap st) \<Longrightarrow> session_id (heap (on_data enc st a d) ! b) = session_id (heap st ! b)"
  by (auto simp: on_data_def Let_def io_to_emit_def nth_list_update split: prod.splits option.splits)

lemma step_heap_stable:
  assumes "step enc dec st ev = Inr st'"
  shows "length (heap st) \<le> length (heap st') \<and>
         (\<forall>b < length (heap st). session_id (heap st' ! b) = session_id (heap st ! b))"
proof (cases ev)
  case (CreateSession k callback out)
  show ?thesis
  proof (cases rule: createSession_cases [of out st])
    case (fail err)
    then show ?thesis using assms CreateSession
      by (auto simp: create_session_def split: if_splits)
  next
    case (ok p s)
    then show ?thesis using assms CreateSession
      by (auto simp: create_session_def socket_emit_def nth_append split: if_splits)
  qed
next
  case (PtyData a d)
  then show ?thesis using assms on_data_fields(4,5) by auto
qed (use assms in \<open>auto simp: connection_def socket_emit_def subscribe_session_def socket_join_def
      terminal_input_def terminal_resize_def on_exit_def io_emit_def Let_def
      split: if_splits option.splits prod.splits\<close>)

lemma step_connected:
  assumes "step enc dec st ev = Inr st'" "distinct (connected st)"
  shows "set (connected st) \<subseteq> set (connected st') \<and> distinct (connected st')"
proof (cases ev)
  case (CreateSession k callback out)
  show ?thesis
    by (cases rule: createSession_cases [of out st])
      (use assms CreateSession in \<open>auto simp: create_session_def socket_emit_def split: if_splits\<close>)
next
  case (PtyData a d)
  then show ?thesis using assms on_data_fields(2) by auto
qed (use assms in \<open>auto simp: connection_def socket_emit_def subscribe_session_def socket_join_def
      terminal_input_def terminal_resize_def on_exit_def io_emit_def Let_def
      split: if_splits option.splits prod.splits\<close>)

lemma count_list_map_pair: "count_list (map (\<lambda>k. (k, m)) ks) (k', m) = count_list ks k'"
  by (induction ks) auto

lemma count_list_map_pair_other: "m \<noteq> m' \<Longrightarrow> count_list (map (\<lambda>k. (k, m)) ks) (k', m') = 0"
  by (induction ks) auto

lemma count_list_distinct: "distinct ks \<Longrightarrow> k \<in> set ks \<Longrightarrow> count_list ks k = 1"
  by (induction ks) auto

lemma step_closed_count:
  assumes "step enc dec st ev = Inr st'"
  shows "count_list (sent st') (k, SessionClosed i)
         = count_list (sent st) (k, SessionClosed i)
           + (if exited_id (heap st) ev = Some i then count_list (connected st) k else 0)"
proof (cases ev)
  case (CreateSession k' callback out)
  show ?thesis
    by (cases rule: createSession_cases [of out st])
      (use assms CreateSession in \<open>auto simp: create_session_def socket_emit_def exited_id_def
          split: if_splits\<close>)
next
  case (PtyData a d)
  then show ?thesis using assms
    by (auto simp: on_data_def Let_def io_to_emit_def exited_id_def count_list_map_pair_other
        split: prod.splits option.splits)
next
  case (PtyExit a code)
  then show ?thesis using assms
    by (auto simp: on_exit_def Let_def io_emit_def exited_id_def count_list_map_pair
        count_list_map_pair_other)
qed (use assms in \<open>auto simp: connection_def socket_emit_def subscribe_session_def socket_join_def
      terminal_input_def terminal_resize_def exited_id_def Let_def
      split: if_splits option.splits prod.splits\<close>)

lemma map_of_update_other: "k \<noteq> i \<Longrightarrow> map_of (AList.update k v al) i = map_of al i"
  by (simp add: update_conv')

lemma map_of_delete_None: "map_of al i = None \<Longrightarrow> map_of (AList.delete k al) i = None"
  by (simp add: delete_conv')

lemma step_lookup_None:
  assumes "step enc dec st ev = Inr st'" "map_of (sessions st) i = None" "created_id ev \<noteq> Some i"
  shows "map_of (sessions st') i = None"
proof (cases ev)
  case (CreateSession k' callback out)
  show ?thesis
    by (cases rule: createSession_cases [of out st])
      (use assms CreateSession in \<open>auto simp: create_session_def socket_emit_def created_id_def
          map_of_update_other split: if_splits\<close>)
next
  case (PtyData a d)
  then show ?thesis using assms on_data_fields(1) by auto
next
  case (PtyExit a code)
  then show ?thesis using assms
    by (auto simp: on_exit_def Let_def io_emit_def map_of_delete_None)
qed (use assms in \<open>auto simp: connection_def socket_emit_def subscribe_session_def socket_join_def
      terminal_input_def terminal_resize_def Let_def
      split: if_splits option.splits prod.splits\<close>)

lemma run_lookup_None:
  assumes "run enc dec st evs = Inr st'" "map_of (sessions st) i = None"
    "\<forall>ev \<in> set evs. created_id ev \<noteq> Some i"
  shows "map_of (sessions st') i = None"
  using assms
proof (induction evs arbitrary: st)
  case Nil
  then show ?case by simp
next
  case (Cons ev evs)
  from Cons.prems(1) obtain st1 where st1: "step enc dec st ev = Inr st1"
    "run enc dec st1 evs = Inr st'" by (auto split: sum.splits)
  have "map_of (sessions st1) i = None"
    using step_lookup_None [OF st1(1) Cons.prems(2)] Cons.prems(3) by simp
  then show ?case using Cons.IH [OF st1(2)] Cons.prems(3) by simp
qed

lemma run_heap_stable:
  assumes "run enc dec st evs = Inr st'"
  shows "length (heap st) \<le> length (heap st') \<and>
         (\<forall>b < length (heap st). session_id (heap st' ! b) = session_id (heap st ! b))"
  using assms
proof (induction evs arbitrary: st)
  case Nil
  then show ?case by simp
next
  case (Cons ev evs)
  from Cons.prems(1) obtain st1 where st1: "step enc dec st ev = Inr st1"
    "run enc dec st1 evs = Inr st'" by (auto split: sum.splits)
  from step_heap_stable [OF st1(1)] Cons.IH [OF st1(2)] show ?case by auto
qed

lemma exited_id_stable:
  assumes "length h \<le> length h'" "\<forall>b < length h. session_id (h' ! b) = session_id (h ! b)"
    "exited_id h' ev \<noteq> Some i"
  shows "exited_id h ev \<noteq> Some i"
  using assms by (auto simp: exited_id_def split: event.splits if_splits)

lemma run_closed_count:
  assumes "run enc dec st evs = Inr st'"
    "\<forall>ev \<in> set evs. exited_id (heap st') ev \<noteq> Some i"
  shows "count_list (sent st') (k, SessionClosed i) = count_list (sent st) (k, SessionClosed i)"
  using assms
proof (induction evs arbitrary: st)
  case Nil
  then show ?case by simp
next
  case (Cons ev evs)
  from Cons.prems(1) obtain st1 where st1: "step enc dec st ev = Inr st1"
    "run enc dec st1 evs = Inr st'" by (auto split: sum.splits)
  from run_heap_stable [OF Cons.prems(1)]
  have "exited_id (heap st) ev \<noteq> Some i"
    using exited_id_stable [of "heap st" "heap st'" ev i] Cons.prems(2) by simp
  then have "count_list (sent st1) (k, SessionClosed i) = count_list (sent st) (k, SessionClosed i)"
    using step_closed_count [OF st1(1), of k i] by simp
  then show ?case using Cons.IH [OF st1(2)] Cons.prems(2) by simp
qed

lemma step_sent_prefix:
  assumes "step enc dec st ev = Inr st'"
  shows "\<exists>new. sent st' = sent st @ new"
proof (cases ev)
  case (CreateSession k' callback out)
  show ?thesis
    by (cases rule: createSession_cases [of out st])
      (use assms CreateSession in \<open>auto simp: create_session_def socket_emit_def split: if_splits\<close>)
next
  case (PtyData a d)
  then show ?thesis using assms
    by (auto simp: on_data_def Let_def io_to_emit_def split: prod.splits option.splits)
qed (use assms in \<open>auto simp: connection_def socket_emit_def subscribe_session_def socket_join_def
      terminal_input_def terminal_resize_def on_exit_def io_emit_def Let_def
      split: if_splits option.splits prod.splits\<close>)

lemma run_sent_prefix:
  assumes "run enc dec st evs = Inr st'"
  shows "\<exists>new. sent st' = sent st @ new"
  using assms
proof (induction evs arbitrary: st)
  case Nil
  then show ?case by simp
next
  case (Cons ev evs)
  from Cons.prems(1) obtain st1 where st1: "step enc dec st ev = Inr st1"
    "run enc dec st1 evs = Inr st'" by (auto split: sum.splits)
  from step_sent_prefix [OF st1(1)] Cons.IH [OF st1(2)] show ?case by auto
qed

lemma outputs_of_append [simp]:
  "outputs_of i k (xs @ ys) = outputs_of i k xs @ outputs_of i k ys"
  by (simp add: outputs_of_def)

lemma outputs_of_Nil [simp]: "outputs_of i k [] = []"
  by (simp add: outputs_of_def)

lemma outputs_of_fanout:
  "outputs_of i k (map (\<lambda>k'. (k', Output j d)) ks)
   = (if i = j then replicate (count_list ks k) d else [])"
  by (induction ks) (auto simp: outputs_of_def)

lemma outputs_of_other:
  "\<forall>j d. m \<noteq> Output j d \<Longrightarrow> outputs_of i k (map (\<lambda>k'. (k', m)) ks) = []"
  by (induction ks) (auto simp: outputs_of_def split: message.splits)

lemma distinct_members: "distinct (rooms st) \<Longrightarrow> distinct (members st i)"
proof -
  assume d: "distinct (rooms st)"
  have "inj_on snd (set (filter (\<lambda>(r, k). r = i) (rooms st)))"
    by (auto simp: inj_on_def)
  then show ?thesis using d by (simp add: members_def distinct_map)
qed

lemma outputs_of_members:
  assumes "distinct (rooms st)" "k \<in> set (members st j)"
  shows "outputs_of i k (map (\<lambda>k'. (k', Output j d)) (members st j)) = (if i = j then [d] else [])"
  using count_list_distinct [OF distinct_members [OF assms(1)] assms(2)]
  by (simp add: outputs_of_fanout)

lemma on_data_ok:
  assumes "a < length (heap st)" "rb_inv (history (heap st ! a))"
  shows "\<exists>h. append_rb enc (history (heap st ! a)) d = (None, h) \<and> rb_inv h \<and>
           limit h = limit (history (heap st ! a)) \<and>
           content h = lastn (nat (limit (history (heap st ! a))))
                         (content (history (heap st ! a)) @ to_bytes enc d) \<and>
           on_data enc st a d
             = st\<lparr>heap := (heap st)[a := (heap st ! a)\<lparr>history := h\<rparr>],
                  sent := sent st @ map (\<lambda>k. (k, Output (session_id (heap st ! a)) d))
                                      (members st (session_id (heap st ! a)))\<rparr>"
proof -
  from append_bytes_step [OF assms(2), of "to_bytes enc d"]
  obtain h where h: "append_rb enc (history (heap st ! a)) d = (None, h)" "rb_inv h"
    "limit h = limit (history (heap st ! a))"
    "content h = lastn (nat (limit (history (heap st ! a))))
                   (content (history (heap st ! a)) @ to_bytes enc d)"
    by (auto simp: append_rb_def)
  then show ?thesis using assms(1)
    by (auto simp: on_data_def Let_def io_to_emit_def members_def)
qed

lemma step_rooms:
  assumes "step enc dec st ev = Inr st'" "distinct (rooms st)"
  shows "set (rooms st) \<subseteq> set (rooms st') \<and> distinct (rooms st')"
proof (cases ev)
  case (CreateSession k' callback out)
  show ?thesis
    by (cases rule: createSession_cases [of out st])
      (use assms CreateSession in \<open>auto simp: create_session_def socket_emit_def split: if_splits\<close>)
next
  case (PtyData a d)
  then show ?thesis using assms on_data_fields(3) by auto
qed (use assms in \<open>auto simp: connection_def socket_emit_def subscribe_session_def socket_join_def
      terminal_input_def terminal_resize_def on_exit_def io_emit_def Let_def
      split: if_splits option.splits prod.splits\<close>)

lemma members_mono: "set (rooms st) \<subseteq> set (rooms st') \<Longrightarrow> k \<in> set (members st i) \<Longrightarrow> k \<in> set (members st' i)"
  by (auto simp: members_def)

lemma step_outputs_pair:
  assumes "step enc dec st ev = Inr st'" "distinct (rooms st)"
    "k1 \<in> set (members st j)" "k2 \<in> set (members st j)"
  shows "outputs_of j k1 (drop (length (sent st)) (sent st'))
         = outputs_of j k2 (drop (length (sent st)) (sent st'))"
proof (cases ev)
  case (CreateSession k' callback out)
  show ?thesis
    by (cases rule: createSession_cases [of out st])
      (use assms CreateSession in \<open>auto simp: create_session_def socket_emit_def outputs_of_def
          split: if_splits\<close>)
next
  case (PtyData a d)
  show ?thesis
  proof (cases "a < length (heap st)")
    case True
    obtain e h where eh: "append_rb enc (history (heap st ! a)) d = (e, h)" by force
    show ?thesis
    proof (cases e)
      case None
      then have "sent st' = sent st @ map (\<lambda>k. (k, Output (session_id (heap st ! a)) d))
                                      (members st (session_id (heap st ! a)))"
        using assms(1) PtyData True eh by (auto simp: on_data_def Let_def io_to_emit_def members_def)
      then show ?thesis
        using outputs_of_members [OF assms(2), of _ "session_id (heap st ! a)" j d] assms(3,4)
        by (cases "j = session_id (heap st ! a)") (auto simp: outputs_of_fanout)
    next
      case (Some err)
      then have "sent st' = sent st"
        using assms(1) PtyData True eh by (auto simp: on_data_def Let_def)
      then show ?thesis by simp
    qed
  next
    case False
    then show ?thesis using assms(1) PtyData by (auto simp: on_data_def)
  qed
next
  case (PtyExit a code)
  then show ?thesis using assms(1)
    by (auto simp: on_exit_def Let_def io_emit_def outputs_of_other)
qed (use assms in \<open>auto simp: connection_def socket_emit_def subscribe_session_def socket_join_def
      terminal_input_def terminal_resize_def Let_def outputs_of_def
      split: if_splits option.splits prod.splits\<close>)

lemma mem_members: "k \<in> set (members st i) \<longleftrightarrow> (i, k) \<in> set (rooms st)"
  by (force simp: members_def)

lemma run_outputs_pair:
  assumes "run enc dec st evs = Inr st'" "distinct (rooms st)"
    "k1 \<in> set (members st j)" "k2 \<in> set (members st j)"
  shows "outputs_of j k1 (drop (length (sent st)) (sent st'))
         = outputs_of j k2 (drop (length (sent st)) (sent st'))"
  using assms
proof (induction evs arbitrary: st)
  case Nil
  then show ?case by simp
next
  case (Cons ev evs)
  from Cons.prems(1) obtain st1 where st1: "step enc dec st ev = Inr st1"
    "run enc dec st1 evs = Inr st'" by (auto split: sum.splits)
  from step_sent_prefix [OF st1(1)] obtain n1 where n1: "sent st1 = sent st @ n1" by blast
  from run_sent_prefix [OF st1(2)] obtain n2 where n2: "sent st' = sent st1 @ n2" by blast
  note r = step_rooms [OF st1(1) Cons.prems(2)]
  have m: "k1 \<in> set (members st1 j)" "k2 \<in> set (members st1 j)"
    using r Cons.prems(3,4) by (auto intro: members_mono)
  have a: "outputs_of j k1 n1 = outputs_of j k2 n1"
    using step_outputs_pair [OF st1(1) Cons.prems(2,3,4)] n1 by simp
  have b: "outputs_of j k1 n2 = outputs_of j k2 n2"
    using Cons.IH [OF st1(2) _ m] r n2 by simp
  show ?case using a b n1 n2 by simp
qed

lemma run_data_outputs:
  assumes "a < length (heap st)" "rb_inv (history (heap st ! a))" "distinct (rooms st)"
    "k \<in> set (members st (session_id (heap st ! a)))"
  shows "\<exists>st'. run enc dec st (map (PtyData a) ds) = Inr st' \<and>
           outputs_of (session_id (heap st ! a)) k (drop (length (sent st)) (sent st')) = ds"
  using assms
proof (induction ds arbitrary: st)
  case Nil
  then show ?case by simp
next
  case (Cons d ds)
  let ?i = "session_id (heap st ! a)"
  from on_data_ok [OF Cons.prems(1,2), of enc d]
  obtain h where h: "rb_inv h"
    "on_data enc st a d
       = st\<lparr>heap := (heap st)[a := (heap st ! a)\<lparr>history := h\<rparr>],
            sent := sent st @ map (\<lambda>k. (k, Output ?i d)) (members st ?i)\<rparr>"
    by blast
  let ?st1 = "on_data enc st a d"
  have p: "a < length (heap ?st1)" "rb_inv (history (heap ?st1 ! a))" "distinct (rooms ?st1)"
    "session_id (heap ?st1 ! a) = ?i" "members ?st1 ?i = members st ?i"
    using h Cons.prems by (simp_all add: members_def)
  have m: "k \<in> set (members ?st1 (session_id (heap ?st1 ! a)))"
    using p(4,5) Cons.prems(4) by simp
  from Cons.IH [OF p(1,2,3) m] p(4)
  obtain st' where st': "run enc dec ?st1 (map (PtyData a) ds) = Inr st'"
    "outputs_of ?i k (drop (length (sent ?st1)) (sent st')) = ds" by auto
  from run_sent_prefix [OF st'(1)] obtain n2 where n2: "sent st' = sent ?st1 @ n2" by blast
  have s1: "sent ?st1 = sent st @ map (\<lambda>k. (k, Output ?i d)) (members st ?i)"
    using h(2) by simp
  have "outputs_of ?i k (drop (length (sent st)) (sent st')) = d # ds"
    using st'(2) outputs_of_members [OF Cons.prems(3,4), of ?i d]
    unfolding n2 s1 by simp
  then show ?case using st'(1) by simp
qed

lemma server_inv_step:
  assumes "step enc dec st ev = Inr st'" "server_inv st"
  shows "server_inv st'"
proof (cases ev)
  case (CreateSession k' callback out)
  show ?thesis
    by (cases rule: createSession_cases [of out st])
      (use assms CreateSession in \<open>auto simp: create_session_def socket_emit_def server_inv_def
          split: if_splits\<close>)
next
  case (PtyData a d)
  show ?thesis
  proof (cases "a < length (heap st)")
    case True
    then have "rb_inv (history (heap st ! a))"
      using assms(2) by (simp add: server_inv_def list_all_length)
    from on_data_ok [OF True this, of enc d]
    obtain h where h: "rb_inv h"
      "heap (on_data enc st a d) = (heap st)[a := (heap st ! a)\<lparr>history := h\<rparr>]"
      by auto
    have "list_all (\<lambda>s. rb_inv (history s)) ((heap st)[a := (heap st ! a)\<lparr>history := h\<rparr>])"
      using assms(2) h(1)
        set_update_subset_insert [of "heap st" a "(heap st ! a)\<lparr>history := h\<rparr>"]
      by (auto simp: server_inv_def list_all_iff)
    then show ?thesis using assms(1) PtyData h(2) by (auto simp: server_inv_def)
  next
    case False
    then show ?thesis using assms PtyData by (auto simp: on_data_def)
  qed
qed (use assms in \<open>auto simp: connection_def socket_emit_def subscribe_session_def socket_join_def
      terminal_input_def terminal_resize_def on_exit_def io_emit_def Let_def server_inv_def
      split: if_splits option.splits prod.splits\<close>)

lemma server_inv_startup:
  assumes "startup out = Inr st"
  shows "server_inv st"
  by (cases rule: createSession_cases [of out initial])
    (use assms in \<open>auto simp: startup_def initial_def server_inv_def\<close>)

lemma server_inv_run:
  assumes "run enc dec st evs = Inr st'" "server_inv st"
  shows "server_inv st'"
  using assms
proof (induction evs arbitrary: st)
  case Nil
  then show ?case by simp
next
  case (Cons ev evs)
  from Cons.prems(1) obtain st1 where st1: "step enc dec st ev = Inr st1"
    "run enc dec st1 evs = Inr st'" by (auto split: sum.splits)
  from Cons.IH [OF st1(2) server_inv_step [OF st1(1) Cons.prems(2)]] show ?case .
qed

text \<open>
  Claim C3. Let a session with id \<open>i\<close> be registered, at address \<open>a\<close>, and let its
  process exit, with any code. The handler raises nothing; it removes the session from the
  registry, so that a lookup of \<open>i\<close> fails, and sends the notification
  \<^verbatim>\<open>session-closed\<close> of \<open>i\<close> to every connected socket, subscribed or not. After any run
  of further events in which no session is created under the id \<open>i\<close> again, the lookup of
  \<open>i\<close> still fails; and if no process of a session with the id \<open>i\<close> exits in that run,
  as a process exits once and ids are unique, every socket that was connected has received
  the notification exactly once more than before the exit.
\<close>

theorem exit_removes_and_notifies:
  assumes "map_of (sessions st) i = Some a" and "a < length (heap st)"
    and "session_id (heap st ! a) = i" and "distinct (connected st)"
    and "run enc dec (on_exit st a code) evs = Inr st'"
    and "\<forall>ev \<in> set evs. created_id ev \<noteq> Some i"
    and "\<forall>ev \<in> set evs. exited_id (heap st') ev \<noteq> Some i"
  shows "step enc dec st (PtyExit a code) = Inr (on_exit st a code) \<and>
         sessions_get (on_exit st a code) i = None \<and>
         sent (on_exit st a code) = sent st @ map (\<lambda>k. (k, SessionClosed i)) (connected st) \<and>
         sessions_get st' i = None \<and>
         (\<forall>k \<in> set (connected st).
            count_list (sent st') (k, SessionClosed i)
            = count_list (sent st) (k, SessionClosed i) + 1)"
proof -
  let ?st1 = "on_exit st a code"
  have s1: "?st1 = st\<lparr>console := console st @ [PtyExited i code],
                      sessions := AList.delete i (sessions st),
                      sent := sent st @ map (\<lambda>k. (k, SessionClosed i)) (connected st)\<rparr>"
    using assms(2,3) by (simp add: on_exit_def Let_def io_emit_def)
  have none1: "map_of (sessions ?st1) i = None"
    by (simp add: s1 delete_conv')
  have none': "map_of (sessions st') i = None"
    by (rule run_lookup_None [OF assms(5) none1 assms(6)])
  have cnt: "count_list (sent st') (k, SessionClosed i)
             = count_list (sent st) (k, SessionClosed i) + 1"
    if "k \<in> set (connected st)" for k
    using run_closed_count [OF assms(5,7), of k]
      count_list_distinct [OF assms(4) that]
    by (simp add: s1 count_list_map_pair)
  show ?thesis
    using s1 none1 none' cnt by (simp add: sessions_get_None)
qed

text \<open>The session of the sample server exits; a socket then asks for it, and another connects.\<close>

theorem exit_removes_and_notifies_witness:
  "map_of (sessions sample_server) ''s-1'' = Some 0 \<and> 0 < length (heap sample_server) \<and>
   session_id (heap sample_server ! 0) = ''s-1'' \<and> distinct (connected sample_server) \<and>
   map created_id [SubscribeSession 2 ''s-1'', Connection 4] = [None, None] \<and>
   (\<exists>st'. run ascii_enc ascii_dec (on_exit sample_server 0 0)
            [SubscribeSession 2 ''s-1'', Connection 4] = Inr st' \<and>
      map (exited_id (heap st')) [SubscribeSession 2 ''s-1'', Connection 4] = [None, None] \<and>
      sessions_get st' ''s-1'' = None \<and>
      count_list (sent st') (1, SessionClosed ''s-1'') = 1 \<and>
      count_list (sent st') (3, SessionClosed ''s-1'') = 1)"
proof -
  define st' where "st' = \<lparr>heap = [one_session], sessions = [], connected = [1, 2, 3, 4],
      rooms = [(''s-1'', 1), (''s-1'', 2)],
      sent = [(1, SessionClosed ''s-1''), (2, SessionClosed ''s-1''),
              (3, SessionClosed ''s-1''), (4, SessionsList [])],
      pty_calls = [], console = [PtyExited ''s-1'' 0, ClientConnected 4]\<rparr>"
  have r: "run ascii_enc ascii_dec (on_exit sample_server 0 0)
             [SubscribeSession 2 ''s-1'', Connection 4] = Inr st'"
    unfolding st'_def by code_simp
  have h: "map_of (sessions sample_server) ''s-1'' = Some 0" "0 < length (heap sample_server)"
    "session_id (heap sample_server ! 0) = ''s-1''" "distinct (connected sample_server)"
    by (simp_all add: sample_server_def one_session_def)
  have c: "\<forall>ev \<in> set [SubscribeSession 2 ''s-1'', Connection 4]. created_id ev \<noteq> Some ''s-1''"
    "\<forall>ev \<in> set [SubscribeSession 2 ''s-1'', Connection 4]. exited_id (heap st') ev \<noteq> Some ''s-1''"
    by (simp_all add: created_id_def exited_id_def)
  have s: "sent sample_server = []" "connected sample_server = [1, 2, 3]"
    by (simp_all add: sample_server_def)
  show ?thesis
    using exit_removes_and_notifies [OF h r c] h r by (auto simp: s created_id_def exited_id_def)
qed

text \<open>
  Claim C4. Let a connected socket \<open>k\<close> subscribe to a registered session \<open>i\<close>, whose
  buffer satisfies its invariant, under a decoder that gives a non-empty string for
  non-empty bytes (as that of UTF-8 does). The handler raises nothing and \<open>k\<close> is a member
  of the room of \<open>i\<close> afterwards. If the buffer is not empty, exactly one message is sent, to
  \<open>k\<close>: the history, with the result of \<^verbatim>\<open>toString\<close>; if it is empty, none is. In every
  run of further events, all that is sent comes after that message.
\<close>

theorem subscribe_replays_history:
  assumes "k \<in> set (connected st)" and "sessions_get st i = Some (a, s)"
    and "rb_inv (history s)" and "\<forall>bs. bs \<noteq> [] \<longrightarrow> dec bs \<noteq> []"
    and "run enc dec (subscribe_session dec st k i) evs = Inr st'"
  shows "step enc dec st (SubscribeSession k i) = Inr (subscribe_session dec st k i) \<and>
         k \<in> set (members (subscribe_session dec st k i) i) \<and>
         sent (subscribe_session dec st k i)
           = sent st @ (if len (history s) = 0 then []
                        else [(k, History i (toString dec (history s)))]) \<and>
         (\<exists>later. sent st' = sent (subscribe_session dec st k i) @ later)"
proof -
  have e: "toString dec (history s) = [] \<longleftrightarrow> len (history s) = 0"
  proof (cases "len (history s) = 0")
    case True
    then show ?thesis by (simp add: toString_def)
  next
    case False
    then have "content (history s) \<noteq> []"
      using length_content [OF assms(3)] assms(3) by (auto simp: rb_inv_def)
    then show ?thesis using toString_content [OF assms(3), of dec] assms(4) False by simp
  qed
  have j: "k \<in> set (members (socket_join st k i) i)"
    by (simp add: socket_join_def mem_members)
  have sj: "sent (socket_join st k i) = sent st"
    by (simp add: socket_join_def)
  show ?thesis
    using assms(1,2) e j sj run_sent_prefix [OF assms(5)]
    by (auto simp: subscribe_session_def Let_def socket_emit_def members_def)
qed

text \<open>
  The third socket subscribes to the session that holds \<^verbatim>\<open>"hello"\<close>; the process then
  prints \<^verbatim>\<open>"!"\<close>.
\<close>

theorem subscribe_replays_history_witness:
  "3 \<in> set (connected sample_server) \<and>
   sessions_get sample_server ''s-1'' = Some (0, one_session) \<and>
   rb_inv (history one_session) \<and> (\<forall>bs. length (ascii_dec bs) = length bs) \<and>
   len (history one_session) \<noteq> 0 \<and>
   toString ascii_dec (history one_session) = [104, 101, 108, 108, 111] \<and>
   sent (subscribe_session ascii_dec sample_server 3 ''s-1'')
     = [(3, History ''s-1'' [104, 101, 108, 108, 111])] \<and>
   (\<exists>st'. run ascii_enc ascii_dec (subscribe_session ascii_dec sample_server 3 ''s-1'')
            [PtyData 0 (NotBuffer [33])] = Inr st' \<and>
      sent st' = sent (subscribe_session ascii_dec sample_server 3 ''s-1'')
                 @ [(1, Output ''s-1'' (NotBuffer [33])), (2, Output ''s-1'' (NotBuffer [33])),
                    (3, Output ''s-1'' (NotBuffer [33]))])"
proof -
  have h: "3 \<in> set (connected sample_server)"
    "sessions_get sample_server ''s-1'' = Some (0, one_session)"
    "rb_inv (history one_session)" "\<forall>bs. bs \<noteq> [] \<longrightarrow> ascii_dec bs \<noteq> []"
    by (simp_all add: sample_server_def sessions_get_def one_session_def hello_buffer_def
        rb_inv_def ascii_dec_def)
  have l: "len (history one_session) \<noteq> 0"
    by (simp add: one_session_def hello_buffer_def)
  have t: "toString ascii_dec (history one_session) = [104, 101, 108, 108, 111]"
    by code_simp
  define st' where "st' = \<lparr>heap = [\<lparr>session_id = ''s-1'', name = ''Term 1'', pty = 7,
            history = \<lparr>buf = [104, 101, 108, 108, 111, 33, 0, 0], limit = 8,
                        start = 0, len = 6\<rparr>\<rparr>],
        sessions = [(''s-1'', 0)], connected = [1, 2, 3],
        rooms = [(''s-1'', 1), (''s-1'', 2), (''s-1'', 3)],
        sent = [(3, History ''s-1'' [104, 101, 108, 108, 111]),
                (1, Output ''s-1'' (NotBuffer [33])),
                (2, Output ''s-1'' (NotBuffer [33])),
                (3, Output ''s-1'' (NotBuffer [33]))],
        pty_calls = [], console = []\<rparr>"
  have r: "run ascii_enc ascii_dec (subscribe_session ascii_dec sample_server 3 ''s-1'')
             [PtyData 0 (NotBuffer [33])] = Inr st'"
    unfolding st'_def by code_simp
  have s: "sent sample_server = []" by (simp add: sample_server_def)
  show ?thesis
    using subscribe_replays_history [OF h r] h l t r by (simp add: s st'_def ascii_dec_def)
qed

text \<open>
  Claim C5. Let the process of the session at address \<open>a\<close> print a chunk \<open>d\<close>, the
  buffer of the session satisfying its invariant (as it does in every state the server
  reaches, \<open>server_inv_run\<close>). The append raises nothing and leaves in the buffer the last
  bytes of the old content followed by the bytes of \<open>d\<close>; the same \<open>d\<close> is sent to every
  member of the room of the session, and to nobody else. Over a run of chunks
  \<open>ds\<close> of that process, a member receives exactly \<open>ds\<close>, in that order. And over any run
  of events, two sockets that are members of the room of a session from the start receive
  the same sequence of its chunks.
\<close>

theorem output_fanout:
  assumes "a < length (heap st)" and "rb_inv (history (heap st ! a))"
    and "distinct (rooms st)"
  shows "(\<exists>h. append_rb enc (history (heap st ! a)) d = (None, h) \<and>
            content h = lastn (nat (limit (history (heap st ! a))))
                          (content (history (heap st ! a)) @ to_bytes enc d) \<and>
            step enc dec st (PtyData a d)
              = Inr (st\<lparr>heap := (heap st)[a := (heap st ! a)\<lparr>history := h\<rparr>],
                        sent := sent st @ map (\<lambda>k. (k, Output (session_id (heap st ! a)) d))
                                            (members st (session_id (heap st ! a)))\<rparr>)) \<and>
         (k \<in> set (members st (session_id (heap st ! a))) \<longrightarrow>
            (\<exists>st'. run enc dec st (map (PtyData a) ds) = Inr st' \<and>
               outputs_of (session_id (heap st ! a)) k (drop (length (sent st)) (sent st')) = ds)) \<and>
         (k1 \<in> set (members st j) \<and> k2 \<in> set (members st j) \<and> run enc dec st evs = Inr st2 \<longrightarrow>
            outputs_of j k1 (drop (length (sent st)) (sent st2))
            = outputs_of j k2 (drop (length (sent st)) (sent st2)))"
proof -
  have a: "\<exists>h. append_rb enc (history (heap st ! a)) d = (None, h) \<and>
            content h = lastn (nat (limit (history (heap st ! a))))
                          (content (history (heap st ! a)) @ to_bytes enc d) \<and>
            step enc dec st (PtyData a d)
              = Inr (st\<lparr>heap := (heap st)[a := (heap st ! a)\<lparr>history := h\<rparr>],
                        sent := sent st @ map (\<lambda>k. (k, Output (session_id (heap st ! a)) d))
                                            (members st (session_id (heap st ! a)))\<rparr>)"
    using on_data_ok [OF assms(1,2), of enc d] by auto
  have b: "\<exists>st'. run enc dec st (map (PtyData a) ds) = Inr st' \<and>
               outputs_of (session_id (heap st ! a)) k (drop (length (sent st)) (sent st')) = ds"
    if "k \<in> set (members st (session_id (heap st ! a)))"
    by (rule run_data_outputs [OF assms(1,2,3) that])
  have c: "outputs_of j k1 (drop (length (sent st)) (sent st2))
            = outputs_of j k2 (drop (length (sent st)) (sent st2))"
    if "k1 \<in> set (members st j)" "k2 \<in> set (members st j)" "run enc dec st evs = Inr st2"
    by (rule run_outputs_pair [OF that(3) assms(3) that(1,2)])
  show ?thesis using a b c by blast
qed

text \<open>The sample server, whose first two sockets are subscribed, and a process that prints twice.\<close>

theorem output_fanout_witness:
  "0 < length (heap sample_server) \<and> rb_inv (history (heap sample_server ! 0)) \<and>
   distinct (rooms sample_server) \<and>
   1 \<in> set (members sample_server ''s-1'') \<and> 2 \<in> set (members sample_server ''s-1'') \<and>
   (\<exists>h. append_rb ascii_enc (history (heap sample_server ! 0)) (NotBuffer [33]) = (None, h) \<and>
      content h = [104, 101, 108, 108, 111, 33]) \<and>
   (\<exists>st'. run ascii_enc ascii_dec sample_server
            (map (PtyData 0) [NotBuffer [33], IsBuffer [10]]) = Inr st' \<and>
      outputs_of ''s-1'' 1 (sent st') = [NotBuffer [33], IsBuffer [10]]) \<and>
   (\<exists>st2. run ascii_enc ascii_dec sample_server
            [SubscribeSession 3 ''s-1'', PtyData 0 (NotBuffer [33]),
             TerminalInput 1 ''s-1'' [108] None, PtyData 0 (IsBuffer [10])] = Inr st2 \<and>
      outputs_of ''s-1'' 1 (sent st2) = outputs_of ''s-1'' 2 (sent st2))"
proof -
  have h: "0 < length (heap sample_server)" "rb_inv (history (heap sample_server ! 0))"
    "distinct (rooms sample_server)"
    by (simp_all add: sample_server_def one_session_def hello_buffer_def rb_inv_def)
  have m: "1 \<in> set (members sample_server ''s-1'')" "2 \<in> set (members sample_server ''s-1'')"
    by (simp_all add: sample_server_def members_def)
  have c: "content (history (heap sample_server ! 0)) = [104, 101, 108, 108, 111]"
    "to_bytes ascii_enc (NotBuffer [33]) = [33]"
    "limit (history (heap sample_server ! 0)) = 8"
    by (simp_all add: sample_server_def one_session_def hello_buffer_def content_def
        to_bytes_def ascii_enc_def)
  have i: "session_id (heap sample_server ! 0) = ''s-1''" "sent sample_server = []"
    by (simp_all add: sample_server_def one_session_def)
  define st2 where "st2 = \<lparr>heap = [\<lparr>session_id = ''s-1'', name = ''Term 1'', pty = 7,
            history = \<lparr>buf = [104, 101, 108, 108, 111, 33, 10, 0], limit = 8,
                        start = 0, len = 7\<rparr>\<rparr>],
        sessions = [(''s-1'', 0)], connected = [1, 2, 3],
        rooms = [(''s-1'', 1), (''s-1'', 2), (''s-1'', 3)],
        sent = [(3, History ''s-1'' [104, 101, 108, 108, 111]),
                (1, Output ''s-1'' (NotBuffer [33])),
                (2, Output ''s-1'' (NotBuffer [33])),
                (3, Output ''s-1'' (NotBuffer [33])),
                (1, Output ''s-1'' (IsBuffer [10])),
                (2, Output ''s-1'' (IsBuffer [10])),
                (3, Output ''s-1'' (IsBuffer [10]))],
        pty_calls = [(7, Write [108])], console = []\<rparr>"
  have r: "run ascii_enc ascii_dec sample_server
            [SubscribeSession 3 ''s-1'', PtyData 0 (NotBuffer [33]),
             TerminalInput 1 ''s-1'' [108] None, PtyData 0 (IsBuffer [10])] = Inr st2"
    unfolding st2_def by code_simp
  show ?thesis
    using output_fanout [OF h, where enc = ascii_enc and dec = ascii_dec and d = "NotBuffer [33]"
        and k = 1 and ds = "[NotBuffer [33], IsBuffer [10]]" and ?k1.0 = 1 and ?k2.0 = 2
        and j = "''s-1''" and evs = "[SubscribeSession 3 ''s-1'', PtyData 0 (NotBuffer [33]),
             TerminalInput 1 ''s-1'' [108] None, PtyData 0 (IsBuffer [10])]" and ?st2.0 = st2]
      h m r
    by (auto simp: c i lastn_def)
qed

text \<open>
  Claim C6. For an id that is not in the registry, the requests to subscribe, to send input
  and to resize raise nothing and leave the whole state of the server as it was: registry,
  session objects and their buffers, rooms, messages sent and calls on processes.
\<close>

theorem unknown_session_ignored:
  assumes "map_of (sessions st) sessionId = None"
  shows "step enc dec st (SubscribeSession k sessionId) = Inr st \<and>
         step enc dec st (TerminalInput k sessionId data thrown) = Inr st \<and>
         step enc dec st (TerminalResize k sessionId cols rows thrown) = Inr st"
  using sessions_get_None [OF assms]
  by (simp add: subscribe_session_def terminal_input_def terminal_resize_def)

text \<open>The id \<^verbatim>\<open>s-9\<close> is unknown to the sample server.\<close>

theorem unknown_session_ignored_witness:
  "map_of (sessions sample_server) ''s-9'' = None \<and>
   step ascii_enc ascii_dec sample_server (SubscribeSession 1 ''s-9'') = Inr sample_server \<and>
   step ascii_enc ascii_dec sample_server (TerminalInput 1 ''s-9'' [108, 115] (Some ERR_PTY))
     = Inr sample_server \<and>
   step ascii_enc ascii_dec sample_server (TerminalResize 1 ''s-9'' 80 30 None) = Inr sample_server"
  using unknown_session_ignored [where st = sample_server and sessionId = "''s-9''"
      and enc = ascii_enc and dec = ascii_dec and k = 1 and data = "[108, 115]"
      and thrown = "Some ERR_PTY" and cols = 80 and rows = 30]
    unknown_session_ignored [where st = sample_server and sessionId = "''s-9''"
      and enc = ascii_enc and dec = ascii_dec and k = 1 and thrown = None and cols = 80 and rows = 30]
  by (simp add: sample_server_def)

text \<open>
  Claim C7. When \<^verbatim>\<open>pty.spawn\<close> raises, \<^verbatim>\<open>createSession\<close> returns \<^verbatim>\<open>null\<close> and
  the request to create a session raises nothing; the state of the server is unchanged but
  for the line that \<^verbatim>\<open>console.error\<close> prints: no session object, no entry of the
  registry, no message to any socket, and so no call of the callback of the request.
\<close>

theorem spawn_failure_registers_nothing:
  assumes "spawned out = Inl err"
  shows "createSession out st = Inr (None, st\<lparr>console := console st @ [FailedToSpawn err]\<rparr>) \<and>
         step enc dec st (CreateSession k callback out)
           = Inr (if k \<in> set (connected st)
                  then st\<lparr>console := console st @ [FailedToSpawn err]\<rparr> else st)"
  using createSession_fail [OF assms] by (simp add: create_session_def)

text \<open>The first socket of the sample server asks for a session, and the spawn fails.\<close>

theorem spawn_failure_registers_nothing_witness:
  "spawned spawn_fails = Inl ERR_SPAWN \<and>
   createSession spawn_fails sample_server
     = Inr (None, sample_server\<lparr>console := [FailedToSpawn ERR_SPAWN]\<rparr>) \<and>
   step ascii_enc ascii_dec sample_server (CreateSession 1 True spawn_fails)
     = Inr (sample_server\<lparr>console := [FailedToSpawn ERR_SPAWN]\<rparr>)"
  using spawn_failure_registers_nothing [where out = spawn_fails and err = ERR_SPAWN
      and st = sample_server and enc = ascii_enc and dec = ascii_dec and k = 1 and callback = True]
  by (simp add: spawn_fails_def sample_server_def)

text \<open>
  Claim C8, as amended. If the spawn of the bootstrap call succeeds, the server starts with
  exactly one session in the registry, under the id it was given and with the name
  \<^verbatim>\<open>Term 1\<close>, no socket connected and no message sent.
\<close>

theorem bootstrap_session:
  assumes "spawned out = Inr p"
  shows "\<exists>st. startup out = Inr st \<and> map fst (sessions st) = [uuid out] \<and>
           map name (sessions_values st) = [''Term 1''] \<and> connected st = [] \<and> sent st = []"
proof -
  have "getNextSessionNumber initial = 1"
    by (simp add: getNextSessionNumber_def sessions_values_def initial_def nextNumber_of_def
        usedNumbers_def)
  then show ?thesis
    using createSession_ok [OF assms, of initial]
    by (simp add: startup_def initial_def sessions_values_def Term_name_1)
qed

text \<open>A start whose spawn succeeds.\<close>

theorem bootstrap_session_witness:
  "spawned spawn_ok = Inr 8 \<and>
   (\<exists>st. startup spawn_ok = Inr st \<and> map fst (sessions st) = [''s-2''] \<and>
      map name (sessions_values st) = [''Term 1''])"
  using bootstrap_session [where out = spawn_ok and p = 8]
  by (auto simp: spawn_ok_def)

text \<open>
  The claim as it is written fails when the spawn of the bootstrap call raises:
  \<^verbatim>\<open>createSession\<close> catches the exception and returns \<^verbatim>\<open>null\<close>, and the server
  starts with an empty registry.
\<close>

theorem bootstrap_spawn_failure_counterexample:
  "startup spawn_fails = Inr (initial\<lparr>console := [FailedToSpawn ERR_SPAWN]\<rparr>) \<and>
   sessions (initial\<lparr>console := [FailedToSpawn ERR_SPAWN]\<rparr>) = []"
  by (simp add: startup_def createSession_def spawn_fails_def initial_def)

section \<open>The names of the sessions the server holds\<close>



























end
